theory Spec2Isabelle
  imports Complex_Main
begin

section \<open>JavaScript values\<close>

text \<open>
  The simulation core is JavaScript. Numbers are modelled as \<^typ>\<open>real\<close> (the
  idealisation of IEEE doubles), array indices, counters and station/line ids as
  \<^typ>\<open>nat\<close>. A read of a missing array element yields \<open>undefined\<close>, modelled by
  \<^typ>\<open>'a option\<close>; a property access on \<open>undefined\<close> throws a \<open>TypeError\<close>.
\<close>

datatype js_error = TypeError

text \<open>\<open>Math.round\<close>: round half up.\<close>

definition js_round :: "real \<Rightarrow> int" where
  "js_round v = \<lfloor>v + 1 / 2\<rfloor>"

text \<open>\<open>a || d\<close> on numbers: the default \<open>d\<close> replaces a falsy (zero) \<open>a\<close>.\<close>

definition or_default :: "real \<Rightarrow> real \<Rightarrow> real" where
  "or_default a d = (if a = 0 then d else a)"

text \<open>\<open>a ?? d\<close>: the default replaces only \<open>null\<close>/\<open>undefined\<close>.\<close>

definition nullish :: "'a option \<Rightarrow> 'a \<Rightarrow> 'a" where
  "nullish a d = (case a of None \<Rightarrow> d | Some v \<Rightarrow> v)"

text \<open>\<open>xs[i]\<close> for a computed (possibly negative or too large) integer index.\<close>

definition js_nth :: "'a list \<Rightarrow> int \<Rightarrow> 'a option" where
  "js_nth xs i = (if 0 \<le> i \<and> nat i < length xs then Some (xs ! nat i) else None)"

text \<open>\<open>xs[Math.floor(r * xs.length)]\<close>, the idiom used for every random pick.\<close>

definition pick :: "'a list \<Rightarrow> real \<Rightarrow> 'a option" where
  "pick xs r = js_nth xs \<lfloor>r * real (length xs)\<rfloor>"

text \<open>\<open>Math.hypot\<close> of two components.\<close>

definition hypot :: "real \<Rightarrow> real \<Rightarrow> real" where
  "hypot a b = sqrt (a * a + b * b)"

section \<open>Data model\<close>

record passenger =
  pid :: real
  destStation :: nat
  spawnTime :: real
  waitTime :: real
  originStation :: nat
  transferReadyAt :: real
  transferCount :: nat

record station =
  sid :: nat
  sname :: string
  sx :: real
  sy :: real
  isFinal :: bool
  isInterchange :: bool
  mctMs :: "real option"
  turnaroundMs :: "real option"
  queue :: "passenger list"
  connections :: "nat list"
  overflowTimer :: real
  isOvercrowded :: bool

record point =
  px :: real
  py :: real

record line =
  lid :: nat
  lstations :: "nat list"
  colorIndex :: "int option"
  isLoop :: bool
  ltrains :: "nat list"
  waypoints :: "point list option"
  totalLength :: real

record train =
  tid :: nat
  lineId :: nat
  position :: real
  direction :: real
  passengers :: "passenger list"
  capacity :: int
  speed :: real
  lastStationVisited :: int
  stationCooldown :: real
  dwellRemaining :: real

text \<open>The configuration bundle (\<open>game.config\<close>), restricted to the fields the core reads.\<close>

record config =
  trainSpeed :: real
  defaultMCT :: real
  mctMultiplier :: real
  defaultTurnaroundMs :: real
  maxWaitSeconds :: real
  missedConnectionMultiplier :: real
  hubAndSpokeMode :: bool
  hubSpokeBias :: real
  hubSpokeBoardingWaitMs :: real
  hubLinePriorityBonus :: real
  hubDesiredTrainBonus :: "int option"
  lineColors :: "string list"
  hexSize :: real
  bundleThreshold :: "real option"
  corridorSpacing :: "real option"
  terminalBubbleRadius :: "real option"

text \<open>
  The shared world state. \<open>game.stations\<close> may hold empty slots, which every
  consumer skips defensively (\<open>if (!s)\<close>), hence \<^typ>\<open>station option list\<close>.
  \<open>gameOverReason\<close> records the argument of the last \<open>game.endGame(reason)\<close> call.
  Score, combo state, popups, achievements and the undo stack belong to the
  presentation layer and are not part of the modelled state.
\<close>

record game =
  cfg :: config
  stations :: "station option list"
  lines :: "line list"
  trains :: "train list"
  day :: nat
  gameTime :: real
  gameOver :: bool
  gameOverReason :: "string option"
  totalPassengers :: nat
  trainsAvailable :: int
  carriages :: nat

text \<open>\<open>game.stations[i]\<close>: \<open>undefined\<close> when out of range or an empty slot.\<close>

definition stationAt :: "game \<Rightarrow> nat \<Rightarrow> station option" where
  "stationAt g i = (if i < length (stations g) then stations g ! i else None)"

text \<open>\<open>game.lines[i]\<close>.\<close>

definition lineAt :: "game \<Rightarrow> nat \<Rightarrow> line option" where
  "lineAt g i = (if i < length (lines g) then Some (lines g ! i) else None)"

text \<open>A write to the station object in slot \<open>i\<close>.\<close>

definition putStation :: "nat \<Rightarrow> station \<Rightarrow> game \<Rightarrow> game" where
  "putStation i st g = g\<lparr>stations := (stations g)[i := Some st]\<rparr>"

text \<open>\<open>game.endGame(reason)\<close>, restricted to the world state (the dialog is external).\<close>

definition endGame :: "string \<Rightarrow> game \<Rightarrow> game" where
  "endGame reason g = g\<lparr>gameOver := True, gameOverReason := Some reason\<rparr>"

section \<open>Passenger spawning\<close>

text \<open>
  \<open>spawnPassenger\<close> draws up to five random numbers. Each \<open>Math.random()\<close> call site
  receives its own draw: the origin pick, the final-destination bias test, the hub
  test, the destination pick and the passenger id.
\<close>

record spawn_rand =
  rOrigin :: real
  rFinalBias :: real
  rPickHub :: real
  rDest :: real
  rId :: real

definition dynamicCap :: "game \<Rightarrow> station \<Rightarrow> int" where
  "dynamicCap g s =
     (let baseCap = (if isFinal s then 14 else if isInterchange s then 11 else 9) :: real;
          boost = (if day g \<le> 2 then 2.0 else if day g = 3 then 1.6
                   else if day g = 4 then 1.3 else 1.1) :: real
      in js_round (baseCap * boost))"

text \<open>\<open>game.stations.filter(s => s)\<close>, keeping the slot index of every station.\<close>

definition candidateSlots :: "game \<Rightarrow> nat list" where
  "candidateSlots g = filter (\<lambda>i. stations g ! i \<noteq> None) [0..<length (stations g)]"

definition presentStations :: "game \<Rightarrow> station list" where
  "presentStations g = map the (filter (\<lambda>s. s \<noteq> None) (stations g))"

definition originSlots :: "game \<Rightarrow> nat list" where
  "originSlots g =
     (let candidates = candidateSlots g;
          origins = filter (\<lambda>i. case stations g ! i of None \<Rightarrow> False
                      | Some s \<Rightarrow> int (length (queue s)) < dynamicCap g s - 1) candidates
      in if origins = [] then candidates else origins)"

text \<open>
  The destination choice of \<open>spawnPassenger\<close>: \<open>Inr None\<close> is the early \<open>return\<close>
  (no destination available), \<open>Inl TypeError\<close> a property read on an \<open>undefined\<close> pick
  (\<open>destStation.id\<close> with \<open>destStation\<close> read past the end of the array).
\<close>

definition orThrow :: "station option \<Rightarrow> js_error + station option" where
  "orThrow d = (case d of None \<Rightarrow> Inl TypeError | Some s \<Rightarrow> Inr (Some s))"

definition finalBias :: "game \<Rightarrow> real" where
  "finalBias g = (if day g \<le> 3 then 0.45 else 0.6)"

text \<open>The probability bound of the hub test: \<open>hubAndSpokeMode ? boosted : baseP\<close>.\<close>

definition hubPickBound :: "game \<Rightarrow> real" where
  "hubPickBound g =
     (let bias = or_default
                   (or_default (hubSpokeBias (cfg g))
                      (if hubAndSpokeMode (cfg g) then 1.2 else 1)) 1;
          baseP = 0.7 :: real;
          boosted = max 0.7 (min 0.97 (baseP + 0.2 * (bias - 1)))
      in if hubAndSpokeMode (cfg g) then boosted else baseP)"

definition chooseDest :: "game \<Rightarrow> spawn_rand \<Rightarrow> nat \<Rightarrow> js_error + station option" where
  "chooseDest g r originIndex =
     (let finals = filter (\<lambda>s. sid s \<noteq> originIndex \<and> isFinal s) (presentStations g);
          others = filter (\<lambda>s. sid s \<noteq> originIndex \<and> \<not> isFinal s) (presentStations g)
      in if finals \<noteq> [] then
           (if rFinalBias r < finalBias g \<or> others = [] then orThrow (pick finals (rDest r))
            else
              (let interchanges = filter isInterchange others;
                   pickHub = (interchanges \<noteq> [] \<and> rPickHub r < hubPickBound g)
               in if pickHub then orThrow (pick interchanges (rDest r))
                  else orThrow (pick others (rDest r))))
         else if others = [] then Inr None
         else orThrow (pick others (rDest r)))"

definition newPassenger :: "game \<Rightarrow> spawn_rand \<Rightarrow> nat \<Rightarrow> station \<Rightarrow> passenger" where
  "newPassenger g r originIndex dest =
     \<lparr>pid = rId r, destStation = sid dest, spawnTime = gameTime g, waitTime = 0,
      originStation = originIndex, transferReadyAt = gameTime g, transferCount = 0\<rparr>"

text \<open>
  \<open>spawnPassenger(game)\<close>. The result pairs the new world state with the passenger
  that was created, if any (the source returns nothing; the second component only
  names the object pushed onto the origin queue).
\<close>

definition spawnPassenger :: "game \<Rightarrow> spawn_rand \<Rightarrow> js_error + game \<times> passenger option" where
  "spawnPassenger g r =
     (if gameOver g then Inr (g, None)
      else if length (stations g) < 2 then Inr (g, None)
      else case pick (originSlots g) (rOrigin r) of
          None \<Rightarrow> Inl TypeError
        | Some slot \<Rightarrow>
            (case stations g ! slot of
               None \<Rightarrow> Inl TypeError
             | Some origin \<Rightarrow>
                 (case chooseDest g r (sid origin) of
                    Inl e \<Rightarrow> Inl e
                  | Inr None \<Rightarrow> Inr (g, None)
                  | Inr (Some dest) \<Rightarrow>
                      (let p = newPassenger g r (sid origin) dest
                       in Inr (g\<lparr>stations := (stations g)
                                   [slot := Some (origin\<lparr>queue := queue origin @ [p]\<rparr>)],
                                 totalPassengers := totalPassengers g + 1\<rparr>, Some p)))))"

section \<open>ETA estimator (routing.js)\<close>

text \<open>
  Travel times range over the reals extended by \<open>Infinity\<close>. Only \<open>+Infinity\<close>
  arises: it is the time of an edge with a missing endpoint and the initial ETA.
\<close>

datatype xreal = Fin real | PInf

fun xadd :: "xreal \<Rightarrow> xreal \<Rightarrow> xreal" where
  "xadd (Fin a) (Fin b) = Fin (a + b)"
| "xadd _ _ = PInf"

fun xless :: "xreal \<Rightarrow> xreal \<Rightarrow> bool" where
  "xless (Fin a) (Fin b) = (a < b)"
| "xless (Fin a) PInf = True"
| "xless PInf _ = False"

text \<open>\<open>isFinite(v)\<close> for a value read from an array: \<open>undefined\<close> is not finite.\<close>

fun isFinite :: "xreal option \<Rightarrow> bool" where
  "isFinite (Some (Fin a)) = True"
| "isFinite _ = False"

subsection \<open>\<open>buildStationGraph\<close>\<close>

text \<open>\<open>adj[a].add(b)\<close> on an insertion-ordered \<open>Set\<close>.\<close>

definition setAdd :: "nat \<Rightarrow> nat \<Rightarrow> nat list list \<Rightarrow> nat list list" where
  "setAdd a b adj = adj[a := (if b \<in> set (adj ! a) then adj ! a else adj ! a @ [b])]"

text \<open>
  \<open>adj[a].add(b); adj[b].add(a)\<close>: a station id outside \<open>game.stations\<close> reads
  \<open>undefined\<close> from \<open>adj\<close> and the method call throws.
\<close>

definition addEdge :: "nat \<Rightarrow> nat \<Rightarrow> nat list list \<Rightarrow> js_error + nat list list" where
  "addEdge a b adj =
     (if a < length adj \<and> b < length adj then Inr (setAdd b a (setAdd a b adj))
      else Inl TypeError)"

text \<open>The consecutive station pairs of one line, in loop order.\<close>

fun lineEdges :: "nat list \<Rightarrow> (nat \<times> nat) list" where
  "lineEdges (a # b # rest) = (a, b) # lineEdges (b # rest)"
| "lineEdges _ = []"

fun addEdges :: "(nat \<times> nat) list \<Rightarrow> nat list list \<Rightarrow> js_error + nat list list" where
  "addEdges [] adj = Inr adj"
| "addEdges ((a, b) # es) adj =
     (case addEdge a b adj of Inl e \<Rightarrow> Inl e | Inr adj' \<Rightarrow> addEdges es adj')"

definition graphEdges :: "game \<Rightarrow> (nat \<times> nat) list" where
  "graphEdges g =
     concat (map (\<lambda>l. if length (lstations l) < 2 then [] else lineEdges (lstations l))
                 (lines g))"

definition buildStationGraph :: "game \<Rightarrow> js_error + nat list list" where
  "buildStationGraph g = addEdges (graphEdges g) (replicate (length (stations g)) [])"

subsection \<open>Edge and transfer times\<close>

definition effectiveSpeed :: "game \<Rightarrow> real" where
  "effectiveSpeed g = max (1 / 1000000) (or_default (trainSpeed (cfg g)) 0.06)"

definition edgeTimeMs :: "game \<Rightarrow> nat \<Rightarrow> nat \<Rightarrow> xreal" where
  "edgeTimeMs g aIdx bIdx =
     (case (stationAt g aIdx, stationAt g bIdx) of
        (Some A, Some B) \<Rightarrow> Fin (hypot (sx B - sx A) (sy B - sy A) / effectiveSpeed g)
      | _ \<Rightarrow> PInf)"

definition interchangeFactor :: "station \<Rightarrow> real" where
  "interchangeFactor s = (if isInterchange s then 0.7 else 1.0)"

definition nodeTransferMs :: "game \<Rightarrow> nat \<Rightarrow> nat \<Rightarrow> real" where
  "nodeTransferMs g nodeIdx destIdx =
     (if nodeIdx = destIdx then 0
      else case stationAt g nodeIdx of
          None \<Rightarrow> 0
        | Some s \<Rightarrow>
            nullish (mctMs s) (or_default (defaultMCT (cfg g)) 12000) * interchangeFactor s
              * or_default (mctMultiplier (cfg g)) 1.0)"

subsection \<open>\<open>computeETAs\<close>: Dijkstra from the destination\<close>

text \<open>
  The selection scan \<open>for (i = 0; i < N; i++) if (!visited[i] && eta[i] < best) ...\<close>,
  carrying \<open>(u, best)\<close>; \<open>u = -1\<close> is \<open>None\<close>. \<open>N\<close> is the common length of both arrays.
\<close>

definition selectStep :: "xreal list \<Rightarrow> bool list \<Rightarrow> nat \<Rightarrow> nat option \<times> xreal \<Rightarrow> nat option \<times> xreal" where
  "selectStep eta visited i ub =
     (if \<not> visited ! i \<and> i < length eta \<and> xless (eta ! i) (snd ub) then (Some i, eta ! i) else ub)"

definition selectMin :: "xreal list \<Rightarrow> bool list \<Rightarrow> nat option" where
  "selectMin eta visited = fst (fold (selectStep eta visited) [0..<length visited] (None, PInf))"

text \<open>The body of \<open>for (const v of adj[u])\<close>.\<close>

definition relax :: "game \<Rightarrow> nat \<Rightarrow> nat \<Rightarrow> nat \<Rightarrow> xreal list \<Rightarrow> xreal list" where
  "relax g destIdx u v eta =
     (let alt = xadd (xadd (edgeTimeMs g v u) (Fin (nodeTransferMs g u destIdx))) (eta ! u)
      in if v < length eta \<and> xless alt (eta ! v) then eta[v := alt] else eta)"

lemma selectStep_sound:
  "(case fst ub of None \<Rightarrow> True | Some u \<Rightarrow> u < n \<and> \<not> visited ! u) \<Longrightarrow> i < n \<Longrightarrow>
   (case fst (selectStep eta visited i ub) of None \<Rightarrow> True | Some u \<Rightarrow> u < n \<and> \<not> visited ! u)"
  by (simp add: selectStep_def)

lemma select_fold_sound:
  "(case fst ub of None \<Rightarrow> True | Some u \<Rightarrow> u < n \<and> \<not> visited ! u) \<Longrightarrow> set is \<subseteq> {..<n} \<Longrightarrow>
   (case fst (fold (selectStep eta visited) is ub) of None \<Rightarrow> True
    | Some u \<Rightarrow> u < n \<and> \<not> visited ! u)"
proof (induction "is" arbitrary: ub)
  case Nil
  then show ?case by simp
next
  case (Cons i "is")
  have "i < n" using Cons.prems(2) by simp
  from selectStep_sound [OF Cons.prems(1) this]
  have "case fst (selectStep eta visited i ub) of None \<Rightarrow> True | Some u \<Rightarrow> u < n \<and> \<not> visited ! u" .
  then show ?case using Cons.IH Cons.prems(2) by simp
qed

lemma selectMin_unvisited:
  assumes "selectMin eta visited = Some u"
  shows "u < length visited \<and> \<not> visited ! u"
proof -
  have "case fst (fold (selectStep eta visited) [0..<length visited] (None, PInf)) of
          None \<Rightarrow> True | Some u \<Rightarrow> u < length visited \<and> \<not> visited ! u"
    by (rule select_fold_sound) auto
  then show ?thesis using assms by (simp add: selectMin_def)
qed

definition unvisited :: "bool list \<Rightarrow> nat" where
  "unvisited visited = length (filter (\<lambda>b. \<not> b) visited)"

lemma unvisited_mark:
  assumes "u < length visited" "\<not> visited ! u"
  shows "unvisited (visited[u := True]) < unvisited visited"
proof -
  have split: "visited = take u visited @ visited ! u # drop (Suc u) visited"
    using assms(1) by (simp add: id_take_nth_drop)
  have upd: "visited[u := True] = take u visited @ True # drop (Suc u) visited"
    using assms(1) by (simp add: upd_conv_take_nth_drop)
  have "unvisited visited =
        unvisited (take u visited) + 1 + unvisited (drop (Suc u) visited)"
    using assms(2) by (subst split) (simp add: unvisited_def)
  moreover have "unvisited (visited[u := True]) =
        unvisited (take u visited) + unvisited (drop (Suc u) visited)"
    by (subst upd) (simp add: unvisited_def)
  ultimately show ?thesis by simp
qed

text \<open>
  The \<open>for (;;)\<close> loop: select the closest unvisited node, stop when there is none,
  mark it and relax its neighbours. Every iteration marks one more node.
\<close>

function dijkstraLoop :: "game \<Rightarrow> nat \<Rightarrow> nat list list \<Rightarrow> xreal list \<Rightarrow> bool list \<Rightarrow> xreal list" where
  "dijkstraLoop g destIdx adj eta visited =
     (case selectMin eta visited of
        None \<Rightarrow> eta
      | Some u \<Rightarrow>
          dijkstraLoop g destIdx adj (fold (relax g destIdx u) (adj ! u) eta) (visited[u := True]))"
  by pat_completeness auto
termination
proof (relation "measure (\<lambda>(g, destIdx, adj, eta, visited). unvisited visited)")
  show "wf (measure (\<lambda>(g, destIdx, adj, eta, visited). unvisited visited))" by simp
next
  fix g :: game and destIdx :: nat and adj :: "nat list list" and eta :: "xreal list"
    and visited :: "bool list" and u :: nat
  assume "selectMin eta visited = Some u"
  then have "u < length visited \<and> \<not> visited ! u" by (rule selectMin_unvisited)
  then have "unvisited (visited[u := True]) < unvisited visited" by (simp add: unvisited_mark)
  then show "((g, destIdx, adj, fold (relax g destIdx u) (adj ! u) eta, visited[u := True]),
              (g, destIdx, adj, eta, visited))
             \<in> measure (\<lambda>(g, destIdx, adj, eta, visited). unvisited visited)"
    by simp
qed

declare dijkstraLoop.simps [simp del]

text \<open>
  \<open>computeETAs(game, destIdx)\<close>. The result is a JavaScript array: for a destination
  index inside \<open>game.stations\<close> it has one entry per station; the assignment
  \<open>eta[destIdx] = 0\<close> past the end extends the array with holes (\<open>None\<close>), and the loop,
  which scans the first \<open>N\<close> entries only, then finds nothing to select.
\<close>

definition computeETAs :: "game \<Rightarrow> nat \<Rightarrow> js_error + xreal option list" where
  "computeETAs g destIdx =
     (let N = length (stations g)
      in case buildStationGraph g of
          Inl e \<Rightarrow> Inl e
        | Inr adj \<Rightarrow>
            (if destIdx < N then
               Inr (map Some (dijkstraLoop g destIdx adj ((replicate N PInf)[destIdx := Fin 0])
                                (replicate N False)))
             else Inr (replicate N (Some PInf) @ replicate (destIdx - N) None @ [Some (Fin 0)])))"

definition estimateETA :: "game \<Rightarrow> nat \<Rightarrow> nat \<Rightarrow> js_error + xreal option" where
  "estimateETA g fromIdx destIdx =
     (case computeETAs g destIdx of
        Inl e \<Rightarrow> Inl e
      | Inr etas \<Rightarrow> Inr (if fromIdx < length etas then etas ! fromIdx else None))"

text \<open>"A finite ETA path exists" from \<open>fromIdx\<close> to \<open>destIdx\<close>: \<open>isFinite(estimateETA(...))\<close>.\<close>

definition hasFiniteETA :: "game \<Rightarrow> nat \<Rightarrow> nat \<Rightarrow> bool" where
  "hasFiniteETA g fromIdx destIdx =
     (case estimateETA g fromIdx destIdx of Inl e \<Rightarrow> False | Inr eta \<Rightarrow> isFinite eta)"

text \<open>\<open>step + etaVia + 1 < etaFrom\<close> once both ETAs are known to be finite.\<close>

fun stepImproves :: "xreal \<Rightarrow> xreal option \<Rightarrow> xreal option \<Rightarrow> bool" where
  "stepImproves step (Some etaVia) (Some etaFrom) =
     xless (xadd (xadd step etaVia) (Fin 1)) etaFrom"
| "stepImproves step _ _ = False"

definition stepReducesETA :: "game \<Rightarrow> nat \<Rightarrow> nat \<Rightarrow> nat \<Rightarrow> js_error + bool" where
  "stepReducesETA g fromIdx viaIdx destIdx =
     (case estimateETA g fromIdx destIdx of
        Inl e \<Rightarrow> Inl e
      | Inr etaFrom \<Rightarrow>
          (case estimateETA g viaIdx destIdx of
             Inl e \<Rightarrow> Inl e
           | Inr etaVia \<Rightarrow>
               Inr (isFinite etaFrom \<and> isFinite etaVia \<and>
                    stepImproves (edgeTimeMs g fromIdx viaIdx) etaVia etaFrom)))"

fun neighborsOnLineFrom :: "nat list \<Rightarrow> nat \<Rightarrow> nat list" where
  "neighborsOnLineFrom sts stationIdx =
     (case find (\<lambda>i. sts ! i = stationIdx) [0..<length sts] of
        None \<Rightarrow> []
      | Some i \<Rightarrow> (if i > 0 then [sts ! (i - 1)] else []) @
                  (if i < length sts - 1 then [sts ! (i + 1)] else []))"

section \<open>Boarding decision (passengers.js)\<close>

text \<open>A disjunction over a list whose tests may throw, evaluated left to right.\<close>

fun anyE :: "('a \<Rightarrow> js_error + bool) \<Rightarrow> 'a list \<Rightarrow> js_error + bool" where
  "anyE t [] = Inr False"
| "anyE t (v # vs) =
     (case t v of Inl e \<Rightarrow> Inl e | Inr True \<Rightarrow> Inr True | Inr False \<Rightarrow> anyE t vs)"

definition isHubStation :: "game \<Rightarrow> nat \<Rightarrow> bool" where
  "isHubStation g si =
     (case stationAt g si of None \<Rightarrow> False | Some s \<Rightarrow> isInterchange s \<or> isFinal s)"

text \<open>Priority 3: some other line through a line-neighbour serves the destination.\<close>

definition neighbourConnects :: "game \<Rightarrow> line \<Rightarrow> nat \<Rightarrow> nat \<Rightarrow> bool" where
  "neighbourConnects g l destStationIdx neighborIdx =
     (case stationAt g neighborIdx of
        None \<Rightarrow> False
      | Some neighborStation \<Rightarrow>
          (\<exists>otherLineId \<in> set (connections neighborStation).
             otherLineId \<noteq> lid l \<and>
             (case lineAt g otherLineId of None \<Rightarrow> False
              | Some otherLine \<Rightarrow> destStationIdx \<in> set (lstations otherLine))))"

definition crowdedHere :: "game \<Rightarrow> nat \<Rightarrow> bool" where
  "crowdedHere g crowd = ((day g \<le> 2 \<and> crowd \<ge> 4) \<or> crowd \<ge> 6)"

definition hubBoardingThreshold :: "game \<Rightarrow> real" where
  "hubBoardingThreshold g =
     (let waitMs = or_default (hubSpokeBoardingWaitMs (cfg g)) 10000;
          bias = or_default (hubSpokeBias (cfg g)) 1
      in max 3000 (real_of_int (js_round (waitMs / max 1 bias))))"

definition longWaitThreshold :: "game \<Rightarrow> real" where
  "longWaitThreshold g = (if day g \<le> 2 then 20000 else 30000)"

definition emergencyWait :: "game \<Rightarrow> real" where
  "emergencyWait g = (if day g \<le> 2 then 45000 else 60000)"

text \<open>The rules after the ETA test (early relief, hub-and-spoke, long wait, emergency).\<close>

definition lateRules :: "game \<Rightarrow> line \<Rightarrow> nat \<Rightarrow> passenger \<Rightarrow> js_error + bool" where
  "lateRules g l stationIdx p =
     (let currentStation = stationAt g stationIdx;
          crowd = (case currentStation of None \<Rightarrow> 0 | Some s \<Rightarrow> length (queue s));
          lineHasHub = (\<exists>si \<in> set (lstations l). isHubStation g si);
          waitRules =
            (case currentStation of
               None \<Rightarrow> False
             | Some s \<Rightarrow>
                 (gameTime g - spawnTime p > longWaitThreshold g \<and> lineHasHub) \<or>
                 gameTime g - spawnTime p > emergencyWait g)
      in if crowdedHere g crowd \<and> lineHasHub then Inr True
         else if hubAndSpokeMode (cfg g) then
           (case estimateETA g stationIdx (destStation p) of
              Inl e \<Rightarrow> Inl e
            | Inr etaFrom \<Rightarrow>
                (if \<not> isFinite etaFrom \<and> lineHasHub \<and>
                    gameTime g - or_default (spawnTime p) (gameTime g) > hubBoardingThreshold g
                 then Inr True else Inr waitRules))
         else Inr waitRules)"

definition shouldBoardLineHere :: "game \<Rightarrow> line \<Rightarrow> nat \<Rightarrow> passenger \<Rightarrow> js_error + bool" where
  "shouldBoardLineHere g l stationIdx p =
     (if length (lstations l) < 2 then Inr False
      else if destStation p \<in> set (lstations l) then Inr True
      else
        (let neigh = neighborsOnLineFrom (lstations l) stationIdx
         in if neigh = [] then Inr False
            else case anyE (\<lambda>v. stepReducesETA g stationIdx v (destStation p)) neigh of
                Inl e \<Rightarrow> Inl e
              | Inr True \<Rightarrow> Inr True
              | Inr False \<Rightarrow>
                  (if \<exists>n \<in> set neigh. neighbourConnects g l (destStation p) n then Inr True
                   else lateRules g l stationIdx p)))"

section \<open>Passenger sweep (passengers.js)\<close>

text \<open>
  \<open>updatePassengersAndCheckOvercrowding(game, dt)\<close> visits every station in slot
  order. For a station it refreshes the wait times of the queue, runs the emergency
  relief, checks the queue against the dynamic capacity (which may end the game and
  the sweep), and last handles the passengers whose wait exceeds \<open>maxWaitSeconds\<close>.
  The last block comes first below, the rest of the loop body after it.
\<close>

subsection \<open>Passengers waiting past the limit\<close>

definition maxWaitMs :: "game \<Rightarrow> real" where
  "maxWaitMs g = maxWaitSeconds (cfg g) * 1000"

definition missedWaitMs :: "game \<Rightarrow> real" where
  "missedWaitMs g =
     maxWaitSeconds (cfg g) * or_default (missedConnectionMultiplier (cfg g)) 1.5 * 1000"

definition canBeServed :: "game \<Rightarrow> station \<Rightarrow> passenger \<Rightarrow> js_error + bool" where
  "canBeServed g st p =
     (if connections st = [] then Inr False
      else case estimateETA g (sid st) (destStation p) of
          Inl e \<Rightarrow> Inl e
        | Inr eta \<Rightarrow> Inr (isFinite eta))"

definition missedReason :: "station \<Rightarrow> string" where
  "missedReason st = ''A passenger missed their connection at '' @ sname st @ ''!''"

text \<open>
  The \<open>forEach\<close> callback, threading the world state (for \<open>endGame\<close>) and the list
  \<open>stranded\<close> of queue indices. The \<open>return\<close> after \<open>endGame\<close> leaves the callback
  only; the iteration continues with the next passenger.
\<close>

fun strandedScan :: "station \<Rightarrow> (nat \<times> passenger) list \<Rightarrow> game \<times> nat list \<Rightarrow> js_error + game \<times> nat list" where
  "strandedScan st [] acc = Inr acc"
| "strandedScan st ((idx, p) # rest) (g, stranded) =
     (if waitTime p > maxWaitMs g then
        (case canBeServed g st p of
           Inl e \<Rightarrow> Inl e
         | Inr False \<Rightarrow> strandedScan st rest (g, stranded @ [idx])
         | Inr True \<Rightarrow>
             (if waitTime p > missedWaitMs g
              then strandedScan st rest (endGame (missedReason st) g, stranded)
              else strandedScan st rest (g, stranded)))
      else strandedScan st rest (g, stranded))"

text \<open>\<open>queue.splice(i, 1)\<close>.\<close>

definition splice1 :: "nat \<Rightarrow> 'a list \<Rightarrow> 'a list" where
  "splice1 i q = take i q @ drop (Suc i) q"

text \<open>\<open>stranded.reverse().forEach(i => st.queue.splice(i, 1))\<close>.\<close>

definition removeStranded :: "nat list \<Rightarrow> 'a list \<Rightarrow> 'a list" where
  "removeStranded stranded q = fold splice1 (rev stranded) q"

definition strandedBlock :: "game \<Rightarrow> nat \<Rightarrow> js_error + game" where
  "strandedBlock g slot =
     (case stationAt g slot of
        None \<Rightarrow> Inr g
      | Some st \<Rightarrow>
          (case strandedScan st (zip [0..<length (queue st)] (queue st)) (g, []) of
             Inl e \<Rightarrow> Inl e
           | Inr (g', stranded) \<Rightarrow>
               Inr (g'\<lparr>stations := (stations g')
                       [slot := Some (st\<lparr>queue := removeStranded stranded (queue st)\<rparr>)]\<rparr>)))"

subsection \<open>Wait refresh and emergency relief\<close>

text \<open>\<open>st.queue.forEach(p => p.waitTime = game.gameTime - p.spawnTime)\<close>.\<close>

definition refreshWaits :: "game \<Rightarrow> nat \<Rightarrow> game" where
  "refreshWaits g slot =
     (case stationAt g slot of
        None \<Rightarrow> g
      | Some st \<Rightarrow>
          putStation slot
            (st\<lparr>queue := map (\<lambda>p. p\<lparr>waitTime := gameTime g - spawnTime p\<rparr>) (queue st)\<rparr>) g)"

text \<open>
  The values of \<open>Math.random()\<close>, numbered in the order in which a sweep draws
  them; the sweep state carries the number of draws made so far.
\<close>

type_synonym draws = "nat \<Rightarrow> real"

text \<open>The queue positions of \<open>stuckPassengers\<close>: waiting longer than \<open>criticalWaitTime\<close>.\<close>

definition stuckIdx :: "game \<Rightarrow> station \<Rightarrow> nat list" where
  "stuckIdx g st =
     filter (\<lambda>i. gameTime g - spawnTime (queue st ! i) > 80000) [0..<length (queue st)]"

text \<open>
  \<open>alternativeStations\<close>, as slots. The filter callback reads \<open>s.queue\<close> of every entry
  of \<open>game.stations\<close> other than the station itself, so an empty slot makes it throw.
\<close>

definition alternativeSlots :: "game \<Rightarrow> nat \<Rightarrow> js_error + nat list" where
  "alternativeSlots g slot =
     (if None \<in> set (stations g) then Inl TypeError
      else Inr (filter (\<lambda>i. i \<noteq> slot \<and>
                            (case stations g ! i of
                               None \<Rightarrow> False
                             | Some s \<Rightarrow> length (queue s) < 4 \<and> connections s \<noteq> []))
                       [0..<length (stations g)]))"

text \<open>
  \<open>passengersToMove\<close>, as positions in the queue before the first move: the first
  two stuck passengers, or the first two of the queue when none is stuck.
\<close>

definition passengersToMove :: "game \<Rightarrow> station \<Rightarrow> nat list" where
  "passengersToMove g st =
     take 2 (if stuckIdx g st \<noteq> [] then stuckIdx g st else take 2 [0..<length (queue st)])"

text \<open>
  The body of \<open>passengersToMove.forEach\<close> for the passenger now at position \<open>idx\<close>:
  one draw picks the alternative station, the passenger leaves the queue, gets a
  fresh \<open>transferReadyAt\<close> and joins the queue of the alternative station.
\<close>

definition moveOne :: "draws \<Rightarrow> nat list \<Rightarrow> nat \<Rightarrow> nat \<Rightarrow> game \<times> nat \<Rightarrow> js_error + game \<times> nat" where
  "moveOne rnd alts slot idx gk =
     (let g = fst gk; k = snd gk
      in case pick alts (rnd k) of
          None \<Rightarrow> Inl TypeError
        | Some a \<Rightarrow>
            (case (stationAt g slot, stationAt g a) of
               (Some st, Some alt) \<Rightarrow>
                 (if idx < length (queue st) then
                    (let p = queue st ! idx;
                         moved = p\<lparr>transferReadyAt := gameTime g +
                                   real_of_int (js_round (nullish (mctMs alt) 8000 *
                                                          or_default (mctMultiplier (cfg g)) 1))\<rparr>;
                         g1 = putStation slot (st\<lparr>queue := splice1 idx (queue st)\<rparr>) g
                     in Inr (putStation a (alt\<lparr>queue := queue alt @ [moved]\<rparr>) g1, Suc k))
                  else Inr (g, Suc k))
             | _ \<Rightarrow> Inl TypeError))"

text \<open>
  The \<open>forEach\<close> over the passengers to move: \<open>indexOf\<close> finds the \<open>j\<close>-th of them
  \<open>j\<close> places before its original position, the earlier ones having left the queue.
\<close>

fun moveAll :: "draws \<Rightarrow> nat list \<Rightarrow> nat \<Rightarrow> nat list \<Rightarrow> nat \<Rightarrow> game \<times> nat \<Rightarrow> js_error + game \<times> nat" where
  "moveAll rnd alts slot [] j gk = Inr gk"
| "moveAll rnd alts slot (i # is) j gk =
     (case moveOne rnd alts slot (i - j) gk of
        Inl e \<Rightarrow> Inl e
      | Inr gk' \<Rightarrow> moveAll rnd alts slot is (Suc j) gk')"

text \<open>
  Emergency action 2: at a final station whose queue was severely overcrowded the
  passengers already at their destination are delivered. The points, popups and
  achievement calls belong to the presentation layer.
\<close>

definition expressDelivery :: "bool \<Rightarrow> nat \<Rightarrow> game \<Rightarrow> game" where
  "expressDelivery severe slot g =
     (case stationAt g slot of
        None \<Rightarrow> g
      | Some st \<Rightarrow>
          (if isFinal st \<and> severe
           then putStation slot (st\<lparr>queue := filter (\<lambda>p. destStation p \<noteq> sid st) (queue st)\<rparr>) g
           else g))"

text \<open>\<open>handleEmergencyOvercrowding(game, station)\<close> for the station in slot \<open>slot\<close>.\<close>

definition handleEmergencyOvercrowding :: "draws \<Rightarrow> nat \<Rightarrow> game \<times> nat \<Rightarrow> js_error + game \<times> nat" where
  "handleEmergencyOvercrowding rnd slot gk =
     (let g = fst gk
      in case stationAt g slot of
          None \<Rightarrow> Inl TypeError
        | Some st \<Rightarrow>
            (if queue st = [] then Inr gk
             else
               (let severe = (length (queue st) \<ge> 12);
                    stuck = stuckIdx g st
                in if stuck \<noteq> [] \<or> severe then
                     (case (if length stuck \<ge> 2 \<or> (severe \<and> length (queue st) > 14) then
                              (case alternativeSlots g slot of
                                 Inl e \<Rightarrow> Inl e
                               | Inr alts \<Rightarrow>
                                   (if alts \<noteq> []
                                    then moveAll rnd alts slot (passengersToMove g st) 0 gk
                                    else Inr gk))
                            else Inr gk) of
                        Inl e \<Rightarrow> Inl e
                      | Inr gk1 \<Rightarrow> Inr (expressDelivery severe slot (fst gk1), snd gk1))
                   else Inr gk)))"

subsection \<open>Capacity check and the sweep\<close>

definition overflowFailMs :: "game \<Rightarrow> real" where
  "overflowFailMs g =
     (if day g \<le> 2 then 60000 else if day g = 3 then 55000
      else if day g = 4 then 50000 else 45000)"

definition overcrowdedReason :: "station \<Rightarrow> string" where
  "overcrowdedReason st = sname st @ '' airport became overcrowded!''"

text \<open>
  The capacity block; the capacity is computed as in the local \<open>dynamicCap\<close> of
  \<open>spawnPassenger\<close>. The flag tells whether the block ended the game, in which case
  \<open>updatePassengersAndCheckOvercrowding\<close> returns at once.
\<close>

definition capacityCheck :: "real \<Rightarrow> nat \<Rightarrow> game \<Rightarrow> game \<times> bool" where
  "capacityCheck dt slot g =
     (case stationAt g slot of
        None \<Rightarrow> (g, False)
      | Some st \<Rightarrow>
          (if int (length (queue st)) \<ge> dynamicCap g st then
             (let st1 = st\<lparr>overflowTimer := overflowTimer st + dt\<rparr>
              in if overflowTimer st1 > overflowFailMs g
                 then (endGame (overcrowdedReason st) (putStation slot st1 g), True)
                 else (putStation slot (st1\<lparr>isOvercrowded := True\<rparr>) g, False))
           else (putStation slot (st\<lparr>overflowTimer := 0, isOvercrowded := False\<rparr>) g, False)))"

text \<open>
  One iteration of \<open>for (const st of game.stations)\<close>; an empty slot is skipped. The
  flag of the result is the \<open>return\<close> of the capacity block.
\<close>

definition sweepStation :: "draws \<Rightarrow> real \<Rightarrow> nat \<Rightarrow> game \<times> nat \<Rightarrow> js_error + (game \<times> nat) \<times> bool" where
  "sweepStation rnd dt slot gk =
     (case stationAt (fst gk) slot of
        None \<Rightarrow> Inr (gk, False)
      | Some st \<Rightarrow>
          (case handleEmergencyOvercrowding rnd slot (refreshWaits (fst gk) slot, snd gk) of
             Inl e \<Rightarrow> Inl e
           | Inr gk1 \<Rightarrow>
               (case capacityCheck dt slot (fst gk1) of
                  (g2, True) \<Rightarrow> Inr ((g2, snd gk1), True)
                | (g2, False) \<Rightarrow>
                    (case strandedBlock g2 slot of
                       Inl e \<Rightarrow> Inl e
                     | Inr g3 \<Rightarrow> Inr ((g3, snd gk1), False)))))"

fun sweepStations :: "draws \<Rightarrow> real \<Rightarrow> nat list \<Rightarrow> game \<times> nat \<Rightarrow> js_error + game \<times> nat" where
  "sweepStations rnd dt [] gk = Inr gk"
| "sweepStations rnd dt (i # is) gk =
     (case sweepStation rnd dt i gk of
        Inl e \<Rightarrow> Inl e
      | Inr (gk', True) \<Rightarrow> Inr gk'
      | Inr (gk', False) \<Rightarrow> sweepStations rnd dt is gk')"

definition updatePassengersAndCheckOvercrowding :: "draws \<Rightarrow> real \<Rightarrow> game \<Rightarrow> js_error + game" where
  "updatePassengersAndCheckOvercrowding rnd dt g =
     (case sweepStations rnd dt [0..<length (stations g)] (g, 0) of
        Inl e \<Rightarrow> Inl e
      | Inr gk \<Rightarrow> Inr (fst gk))"

section \<open>Vehicles (trains.js)\<close>

text \<open>
  Trains and stations are shared mutable objects; the model addresses them by
  their slot in \<open>game.trains\<close> and \<open>game.stations\<close> and writes every mutation
  back into the world state.
\<close>

definition trainAt :: "game \<Rightarrow> nat \<Rightarrow> train option" where
  "trainAt g i = (if i < length (trains g) then Some (trains g ! i) else None)"

definition putTrain :: "nat \<Rightarrow> train \<Rightarrow> game \<Rightarrow> game" where
  "putTrain i tr g = g\<lparr>trains := (trains g)[i := tr]\<rparr>"

definition earlySpeedFactor :: "game \<Rightarrow> real" where
  "earlySpeedFactor g = (if day g \<noteq> 0 \<and> day g \<le> 2 then 1.15 else 1.0)"

text \<open>The train object built by \<open>createTrain\<close> for line \<open>lineIdx\<close>.\<close>

definition newTrainFor :: "game \<Rightarrow> nat \<Rightarrow> train" where
  "newTrainFor g lineIdx =
     \<lparr>tid = length (trains g), lineId = lineIdx, position = 0.0, direction = 1,
      passengers = [], capacity = 10 + int (carriages g),
      speed = trainSpeed (cfg g) * earlySpeedFactor g,
      lastStationVisited = -1, stationCooldown = 0, dwellRemaining = 0\<rparr>"

text \<open>\<open>createTrain(game, lineId)\<close>; the second component is the returned train or \<open>null\<close>.\<close>

definition createTrain :: "game \<Rightarrow> nat \<Rightarrow> game \<times> train option" where
  "createTrain g lineIdx =
     (case lineAt g lineIdx of
        None \<Rightarrow> (g, None)
      | Some l \<Rightarrow>
          (if length (lstations l) < 2 then (g, None)
           else
             (let tr = newTrainFor g lineIdx
              in (g\<lparr>lines := (lines g)[lineIdx := l\<lparr>ltrains := ltrains l @ [tid tr]\<rparr>],
                    trains := trains g @ [tr]\<rparr>, Some tr))))"

subsection \<open>\<open>handleStationArrival\<close>\<close>

definition mctFactor :: "game \<Rightarrow> real" where
  "mctFactor g = (if day g \<noteq> 0 \<and> day g \<le> 2 then 0.7 else if day g = 3 then 0.9 else 1.0)"

definition transferDelay :: "game \<Rightarrow> station \<Rightarrow> int" where
  "transferDelay g st =
     js_round (nullish (mctMs st) (or_default (defaultMCT (cfg g)) 12000) * mctFactor g
               * or_default (mctMultiplier (cfg g)) 1.0)"

text \<open>
  The first loop: a passenger at its destination is delivered (leaves the model), a
  passenger whose destination is not on this line is pushed back onto the station
  queue with a transfer delay, everybody else stays on board. The result is
  \<open>(remaining, pushed)\<close>, both in iteration order.
\<close>

fun disembark :: "game \<Rightarrow> line \<Rightarrow> station \<Rightarrow> passenger list \<Rightarrow> passenger list \<times> passenger list" where
  "disembark g l st [] = ([], [])"
| "disembark g l st (p # ps) =
     (let (remaining, pushed) = disembark g l st ps
      in if destStation p = sid st then (remaining, pushed)
         else if destStation p \<notin> set (lstations l) then
           (remaining,
            p\<lparr>transferReadyAt := gameTime g + real_of_int (transferDelay g st),
              transferCount := transferCount p + 1\<rparr> # pushed)
         else (p # remaining, pushed))"

text \<open>
  The boarding loop over the station queue, with \<open>picked\<close> counted against the free
  capacity. The result is \<open>(boarded, keep)\<close>.
\<close>

fun boardQueue :: "(passenger \<Rightarrow> js_error + bool) \<Rightarrow> real \<Rightarrow> int \<Rightarrow> int \<Rightarrow> passenger list \<Rightarrow>
    js_error + passenger list \<times> passenger list" where
  "boardQueue sb now cap picked [] = Inr ([], [])"
| "boardQueue sb now cap picked (p # ps) =
     (if picked \<ge> cap \<or> now < or_default (transferReadyAt p) 0 then
        (case boardQueue sb now cap picked ps of
           Inl e \<Rightarrow> Inl e
         | Inr (boarded, keep) \<Rightarrow> Inr (boarded, p # keep))
      else
        (case sb p of
           Inl e \<Rightarrow> Inl e
         | Inr True \<Rightarrow>
             (case boardQueue sb now cap (picked + 1) ps of
                Inl e \<Rightarrow> Inl e
              | Inr (boarded, keep) \<Rightarrow> Inr (p # boarded, keep))
         | Inr False \<Rightarrow>
             (case boardQueue sb now cap picked ps of
                Inl e \<Rightarrow> Inl e
              | Inr (boarded, keep) \<Rightarrow> Inr (boarded, p # keep))))"

text \<open>
  \<open>handleStationArrival(game, train, station)\<close> for the train in slot \<open>ti\<close> and the
  station in slot \<open>si\<close>. The boarding decision reads the world state as it is after
  the first loop (the queue already holds the pushed-back transfers); the boarding
  loop itself only grows \<open>train.passengers\<close>, which the decision never reads.
\<close>

definition handleStationArrival :: "game \<Rightarrow> nat \<Rightarrow> nat \<Rightarrow> js_error + game" where
  "handleStationArrival g ti si =
     (case (trainAt g ti, stationAt g si) of
        (Some tr, Some st) \<Rightarrow>
          (case lineAt g (lineId tr) of
             None \<Rightarrow> Inr g
           | Some l \<Rightarrow>
               (let (remaining, pushed) = disembark g l st (passengers tr);
                    st1 = st\<lparr>queue := queue st @ pushed\<rparr>;
                    tr1 = tr\<lparr>passengers := remaining\<rparr>;
                    g1 = putTrain ti tr1 (putStation si st1 g);
                    cap = capacity tr1 - int (length (passengers tr1))
                in if cap \<le> 0 then Inr g1
                   else
                     (case boardQueue (shouldBoardLineHere g1 l (sid st1)) (gameTime g1) cap 0
                             (queue st1) of
                        Inl e \<Rightarrow> Inl e
                      | Inr (boarded, keep) \<Rightarrow>
                          Inr (putTrain ti (tr1\<lparr>passengers := remaining @ boarded\<rparr>)
                                 (putStation si (st1\<lparr>queue := keep\<rparr>) g1)))))
      | _ \<Rightarrow> Inl TypeError)"

subsection \<open>\<open>updateTrains\<close>\<close>

text \<open>The cumulative station distances \<open>params\<close> along a line.\<close>

fun cumDist :: "real \<Rightarrow> station list \<Rightarrow> real list" where
  "cumDist acc (a # b # rest) =
     (acc + hypot (sx b - sx a) (sy b - sy a)) #
     cumDist (acc + hypot (sx b - sx a) (sy b - sy a)) (b # rest)"
| "cumDist acc _ = []"

text \<open>The normalized station positions \<open>norm\<close>.\<close>

definition stationNorms :: "station list \<Rightarrow> real list" where
  "stationNorms sts =
     (let params = cumDist 0 sts;
          cum = (if params = [] then 0 else last params);
          tot = max cum (1 / 1000000)
      in 0 # map (\<lambda>c. c / tot) params)"

definition earlyDwellFactor :: "game \<Rightarrow> real" where
  "earlyDwellFactor g = (if day g \<noteq> 0 \<and> day g \<le> 3 then 0.8 else 1.0)"

definition crowdFactor :: "station \<Rightarrow> real" where
  "crowdFactor st = (if isOvercrowded st then 0.8 else 1.0)"

definition typeFactor :: "station \<Rightarrow> real" where
  "typeFactor st = (if isInterchange st then 0.8 else 1.0)"

text \<open>The dwell duration assigned in \<open>arriveAtStationIdx\<close>.\<close>

definition dwellDuration :: "game \<Rightarrow> station \<Rightarrow> real" where
  "dwellDuration g st =
     nullish (turnaroundMs st) (or_default (defaultTurnaroundMs (cfg g)) 600)
       * earlyDwellFactor g * crowdFactor st * typeFactor st"

text \<open>
  \<open>arriveAtStationIdx(idx)\<close>, the closure inside \<open>updateTrains\<close>, for the train in
  slot \<open>ti\<close> on line \<open>l\<close>.
\<close>

definition arriveAtStationIdx :: "game \<Rightarrow> nat \<Rightarrow> line \<Rightarrow> nat \<Rightarrow> js_error + game" where
  "arriveAtStationIdx g ti l idx =
     (let stationIndex = lstations l ! idx
      in case handleStationArrival g ti stationIndex of
          Inl e \<Rightarrow> Inl e
        | Inr g1 \<Rightarrow>
            (case (trainAt g1 ti, stationAt g1 stationIndex) of
               (Some tr, Some st) \<Rightarrow>
                 Inr (putTrain ti
                        (tr\<lparr>lastStationVisited := int stationIndex,
                            stationCooldown := 600,
                            dwellRemaining := dwellDuration g1 st,
                            direction :=
                              (if \<not> isLoop l \<and> (idx = 0 \<or> idx = length (lstations l) - 1)
                               then direction tr * (-1) else direction tr)\<rparr>) g1)
             | _ \<Rightarrow> Inl TypeError))"

definition crossEps :: real where
  "crossEps = 1 / 10000"

text \<open>
  The station index at which \<open>checkCrossing(startPos, endPos, dir)\<close> fires, if any:
  the first match scanning upwards for \<open>dir > 0\<close>, downwards otherwise.
\<close>

definition crossingIdx :: "train \<Rightarrow> line \<Rightarrow> real list \<Rightarrow> real \<Rightarrow> real \<Rightarrow> real \<Rightarrow> nat option" where
  "crossingIdx tr l norms startPos endPos dir =
     (let free = (\<lambda>i. lastStationVisited tr \<noteq> int (lstations l ! i) \<and> stationCooldown tr \<le> 0)
      in if dir > 0 then
           find (\<lambda>i. norms ! i > startPos + crossEps \<and> norms ! i \<le> endPos + crossEps \<and> free i)
                [0..<length norms]
         else
           find (\<lambda>i. norms ! i < startPos - crossEps \<and> norms ! i \<ge> endPos - crossEps \<and> free i)
                (rev [0..<length norms]))"

text \<open>
  \<open>checkCrossing\<close>: on a hit the train snaps to the station and arrives; the result
  is \<open>Some\<close> of the new state when the function returned \<open>true\<close>.
\<close>

definition checkCrossing :: "game \<Rightarrow> nat \<Rightarrow> train \<Rightarrow> line \<Rightarrow> real list \<Rightarrow> real \<Rightarrow> real \<Rightarrow>
    js_error + game option" where
  "checkCrossing g ti tr l norms startPos endPos =
     (case crossingIdx tr l norms startPos endPos (direction tr) of
        None \<Rightarrow> Inr None
      | Some i \<Rightarrow>
          (case arriveAtStationIdx (putTrain ti (tr\<lparr>position := norms ! i\<rparr>) g) ti l i of
             Inl e \<Rightarrow> Inl e
           | Inr g' \<Rightarrow> Inr (Some g')))"

text \<open>The end of a dwell: clear the timers and nudge the train off a terminal.\<close>

definition endDwell :: "line \<Rightarrow> train \<Rightarrow> train" where
  "endDwell l tr =
     (let epsPos = 1 / 1000 :: real;
          pos = (if \<not> isLoop l then
                   (if position tr \<ge> 1.0 - epsPos then 1.0 - 2 * epsPos
                    else if position tr \<le> epsPos then 2 * epsPos else position tr)
                 else position tr)
      in tr\<lparr>dwellRemaining := 0, position := pos, stationCooldown := 0\<rparr>)"

text \<open>The terminal guard of a running train on a non-loop line.\<close>

definition terminalGuard :: "line \<Rightarrow> train \<Rightarrow> train" where
  "terminalGuard l tr =
     (let epsGuard = 1 / 10000 :: real
      in if isLoop l then tr
         else if position tr \<ge> 1.0 - epsGuard \<and> direction tr > 0 \<and> stationCooldown tr \<le> 0
           then tr\<lparr>direction := -1, position := 1.0 - 2 * epsGuard\<rparr>
         else if position tr \<le> epsGuard \<and> direction tr < 0 \<and> stationCooldown tr \<le> 0
           then tr\<lparr>direction := 1, position := 2 * epsGuard\<rparr>
         else tr)"

text \<open>The wrap-around branch of a loop line (\<open>proposed\<close> outside \<open>[0, 1]\<close>).\<close>

definition wrapMove :: "game \<Rightarrow> nat \<Rightarrow> train \<Rightarrow> line \<Rightarrow> real list \<Rightarrow> real \<Rightarrow> real \<Rightarrow> real \<Rightarrow>
    js_error + game" where
  "wrapMove g ti tr l norms prevPos edge wrapped =
     (case checkCrossing g ti tr l norms prevPos edge of
        Inl e \<Rightarrow> Inl e
      | Inr (Some g') \<Rightarrow> Inr g'
      | Inr None \<Rightarrow>
          (case checkCrossing g ti tr l norms (1 - edge) wrapped of
             Inl e \<Rightarrow> Inl e
           | Inr (Some g') \<Rightarrow> Inr g'
           | Inr None \<Rightarrow> Inr (putTrain ti (tr\<lparr>position := wrapped\<rparr>) g)))"

text \<open>The final placement on a loop line, for \<open>proposed\<close> inside \<open>[0, 1]\<close>.\<close>

definition loopPlace :: "real \<Rightarrow> real" where
  "loopPlace proposed =
     (if proposed \<ge> 1.0 then proposed - 1.0 else if proposed < 0.0 then proposed + 1.0
      else proposed)"

text \<open>The final placement on a non-loop line: clamp, then handle both terminals.\<close>

definition clampMove :: "game \<Rightarrow> nat \<Rightarrow> train \<Rightarrow> line \<Rightarrow> real \<Rightarrow> js_error + game" where
  "clampMove g ti tr l proposed =
     (let tr1 = tr\<lparr>position := max 0 (min 1 proposed)\<rparr>;
          lastI = length (lstations l) - 1
      in if position tr1 \<ge> 1.0 - crossEps then
           (if lastStationVisited tr1 \<noteq> int (lstations l ! lastI) \<and> stationCooldown tr1 \<le> 0
            then arriveAtStationIdx (putTrain ti tr1 g) ti l lastI
            else Inr (putTrain ti (tr1\<lparr>position := 1.0, direction := -1\<rparr>) g))
         else if position tr1 \<le> 0.0 + crossEps then
           (if lastStationVisited tr1 \<noteq> int (lstations l ! 0) \<and> stationCooldown tr1 \<le> 0
            then arriveAtStationIdx (putTrain ti tr1 g) ti l 0
            else Inr (putTrain ti (tr1\<lparr>position := 0.0, direction := 1\<rparr>) g))
         else Inr (putTrain ti tr1 g))"

text \<open>The movement of a running train (everything after the dwell test).\<close>

definition moveTrain :: "game \<Rightarrow> nat \<Rightarrow> train \<Rightarrow> line \<Rightarrow> station list \<Rightarrow> real \<Rightarrow> js_error + game" where
  "moveTrain g ti tr0 l sts deltaTime =
     (let tr = terminalGuard l tr0;
          safeLen = max 100 (totalLength l);
          step = (speed tr * deltaTime) / safeLen;
          prevPos = position tr;
          proposed = prevPos + step * direction tr;
          norms = stationNorms sts
      in if isLoop l \<and> proposed > 1.0 then wrapMove g ti tr l norms prevPos 1.0 (proposed - 1.0)
         else if isLoop l \<and> proposed < 0.0 then wrapMove g ti tr l norms prevPos 0.0 (proposed + 1.0)
         else
           (case checkCrossing g ti tr l norms prevPos proposed of
              Inl e \<Rightarrow> Inl e
            | Inr (Some g') \<Rightarrow> Inr g'
            | Inr None \<Rightarrow>
                (if isLoop l then Inr (putTrain ti (tr\<lparr>position := loopPlace proposed\<rparr>) g)
                 else clampMove g ti tr l proposed)))"

text \<open>The \<open>forEach\<close> callback of \<open>updateTrains\<close> for the train in slot \<open>ti\<close>.\<close>

definition updateTrain :: "real \<Rightarrow> nat \<Rightarrow> game \<Rightarrow> js_error + game" where
  "updateTrain deltaTime ti g =
     (case trainAt g ti of
        None \<Rightarrow> Inr g
      | Some tr0 \<Rightarrow>
          (case lineAt g (lineId tr0) of
             None \<Rightarrow> Inr g
           | Some l \<Rightarrow>
               (if length (lstations l) < 2 then Inr g
                else if \<exists>si \<in> set (lstations l). stationAt g si = None then Inr g
                else
                  (let tr1 = (if stationCooldown tr0 > 0
                              then tr0\<lparr>stationCooldown := stationCooldown tr0 - deltaTime\<rparr>
                              else tr0)
                   in if dwellRemaining tr1 > 0 then
                        (let tr2 = tr1\<lparr>dwellRemaining := dwellRemaining tr1 - deltaTime\<rparr>
                         in if dwellRemaining tr2 \<le> 0 then Inr (putTrain ti (endDwell l tr2) g)
                            else Inr (putTrain ti tr2 g))
                      else moveTrain g ti tr1 l (map (\<lambda>si. the (stationAt g si)) (lstations l))
                             deltaTime))))"

fun updateTrainsFrom :: "real \<Rightarrow> nat list \<Rightarrow> game \<Rightarrow> js_error + game" where
  "updateTrainsFrom deltaTime [] g = Inr g"
| "updateTrainsFrom deltaTime (ti # tis) g =
     (case updateTrain deltaTime ti g of
        Inl e \<Rightarrow> Inl e
      | Inr g' \<Rightarrow> updateTrainsFrom deltaTime tis g')"

definition updateTrains :: "game \<Rightarrow> real \<Rightarrow> js_error + game" where
  "updateTrains g deltaTime = updateTrainsFrom deltaTime [0..<length (trains g)] g"

subsection \<open>\<open>optimizeTrainAllocation\<close>\<close>

text \<open>Whether some other line through a station of \<open>l\<close> serves \<open>dest\<close>.\<close>

definition canTransfer :: "game \<Rightarrow> line \<Rightarrow> nat \<Rightarrow> bool" where
  "canTransfer g l dest =
     (\<exists>si \<in> set (lstations l).
        case stationAt g si of
          None \<Rightarrow> False
        | Some transferStation \<Rightarrow>
            (\<exists>otherLineId \<in> set (connections transferStation).
               case lineAt g otherLineId of
                 None \<Rightarrow> False
               | Some otherLine \<Rightarrow> dest \<in> set (lstations otherLine)))"

definition passengerDemand :: "game \<Rightarrow> line \<Rightarrow> passenger \<Rightarrow> nat" where
  "passengerDemand g l p =
     (if destStation p \<in> set (lstations l) then 2 else if canTransfer g l (destStation p) then 1
      else 0)"

definition calculateLineDemand :: "game \<Rightarrow> line \<Rightarrow> nat" where
  "calculateLineDemand g l =
     sum_list (map (\<lambda>stationId.
                 case stationAt g stationId of
                   None \<Rightarrow> 0
                 | Some st \<Rightarrow> sum_list (map (passengerDemand g l) (queue st)))
               (lstations l))"

definition connectsHub :: "game \<Rightarrow> line \<Rightarrow> bool" where
  "connectsHub g l = (\<exists>si \<in> set (lstations l). isHubStation g si)"

definition zeroTrainBoost :: "line \<Rightarrow> real" where
  "zeroTrainBoost l = (if ltrains l = [] then 100000 else 0)"

definition hubPriority :: "game \<Rightarrow> line \<Rightarrow> real" where
  "hubPriority g l =
     (if connectsHub g l then or_default (hubLinePriorityBonus (cfg g)) 200 else 0)"

definition linePriority :: "game \<Rightarrow> line \<Rightarrow> real" where
  "linePriority g l =
     zeroTrainBoost l + or_default (totalLength l) 0 + real (calculateLineDemand g l) * 50
       + hubPriority g l"

definition maxTrains :: "game \<Rightarrow> line \<Rightarrow> int" where
  "maxTrains g l =
     (let stationCount = real (length (lstations l));
          earlyMax = (if day g \<noteq> 0 \<and> day g \<le> 3 then 5 else 4)
      in min earlyMax (max 2 \<lceil>stationCount / 2\<rceil>))"

definition desiredTrains :: "game \<Rightarrow> line \<Rightarrow> int" where
  "desiredTrains g l =
     (let len = or_default (totalLength l) 0;
          stationCount = real (length (lstations l));
          baseTrainsForLength = max 1 \<lceil>len / 350\<rceil>;
          demandTrains = \<lceil>real (calculateLineDemand g l) / 10\<rceil>;
          stationTrains = max 1 \<lceil>stationCount / 3\<rceil>;
          desiredRaw = max baseTrainsForLength stationTrains + demandTrains
                       + (if hubAndSpokeMode (cfg g) \<and> connectsHub g l
                          then nullish (hubDesiredTrainBonus (cfg g)) 1 else 0)
      in max 1 (min desiredRaw (maxTrains g l)))"

record lineStat =
  statLineId :: nat
  currentTrains :: int
  desired :: int
  deficit :: int
  priority :: real

definition lineStats :: "game \<Rightarrow> line \<Rightarrow> lineStat" where
  "lineStats g l =
     \<lparr>statLineId = lid l, currentTrains = int (length (ltrains l)),
      desired = desiredTrains g l,
      deficit = max 0 (desiredTrains g l - int (length (ltrains l))),
      priority = linePriority g l\<rparr>"

text \<open>
  \<open>lineStats.sort((a, b) => b.priority - a.priority)\<close>: a stable sort, descending
  by priority (an element is placed before the first one that does not exceed it).
\<close>

fun insertStat :: "lineStat \<Rightarrow> lineStat list \<Rightarrow> lineStat list" where
  "insertStat s [] = [s]"
| "insertStat s (t # ts) =
     (if priority t \<le> priority s then s # t # ts else t # insertStat s ts)"

definition sortStats :: "lineStat list \<Rightarrow> lineStat list" where
  "sortStats xs = foldr insertStat xs []"

text \<open>The inner loop \<open>for (i = 0; i < trainsToAdd; i++)\<close>.\<close>

fun addTrains :: "nat \<Rightarrow> nat \<Rightarrow> game \<Rightarrow> game" where
  "addTrains lineIdx 0 g = g"
| "addTrains lineIdx (Suc n) g =
     (if trainsAvailable g \<le> 0 then g
      else case createTrain g lineIdx of
          (g', Some newTrain) \<Rightarrow>
            addTrains lineIdx n (g'\<lparr>trainsAvailable := trainsAvailable g' - 1\<rparr>)
        | (g', None) \<Rightarrow> addTrains lineIdx n g')"

fun allocate :: "lineStat list \<Rightarrow> game \<Rightarrow> game" where
  "allocate [] g = g"
| "allocate (stats # rest) g =
     (if trainsAvailable g \<le> 0 then g
      else if deficit stats \<le> 0 then allocate rest g
      else allocate rest
             (addTrains (statLineId stats) (nat (min (deficit stats) (trainsAvailable g))) g))"

definition optimizeTrainAllocation :: "game \<Rightarrow> game" where
  "optimizeTrainAllocation g =
     (if trainsAvailable g \<le> 0 then g
      else allocate (sortStats (map (lineStats g) (lines g))) g)"

section \<open>Line manager (lines.js)\<close>

text \<open>
  \<open>pickAvailableColorIndex\<close>. With an empty palette the remainder \<open>n % 0\<close> is
  \<open>NaN\<close>, modelled by \<open>None\<close>.
\<close>

definition pickAvailableColorIndex :: "game \<Rightarrow> int option" where
  "pickAvailableColorIndex g =
     (let used = set (map colorIndex (lines g));
          tot = length (lineColors (cfg g))
      in if tot = 0 then None
         else
           (let startOffset = length (lines g) mod tot
            in case find (\<lambda>c. Some (int c) \<notin> used)
                         (map (\<lambda>i. (startOffset + i) mod tot) [0..<tot]) of
                Some c \<Rightarrow> Some (int c)
              | None \<Rightarrow> Some (int (length (lines g) mod tot))))"

text \<open>\<open>calculateLineLength\<close>: reading \<open>.x\<close> of a missing station throws.\<close>

fun calculateLineLength :: "game \<Rightarrow> nat list \<Rightarrow> js_error + real" where
  "calculateLineLength g (a # b # rest) =
     (case (stationAt g a, stationAt g b) of
        (Some A, Some B) \<Rightarrow>
          (case calculateLineLength g (b # rest) of
             Inl e \<Rightarrow> Inl e
           | Inr tot \<Rightarrow> Inr (hypot (sx B - sx A) (sy B - sy A) + tot))
      | _ \<Rightarrow> Inl TypeError)"
| "calculateLineLength g _ = Inr 0"

text \<open>The loop registering the new line id in every member station.\<close>

fun addConnections :: "nat \<Rightarrow> nat list \<Rightarrow> game \<Rightarrow> js_error + game" where
  "addConnections lineIdx [] g = Inr g"
| "addConnections lineIdx (idx # rest) g =
     (case stationAt g idx of
        None \<Rightarrow> Inl TypeError
      | Some st \<Rightarrow>
          addConnections lineIdx rest
            (if lineIdx \<in> set (connections st) then g
             else putStation idx (st\<lparr>connections := connections st @ [lineIdx]\<rparr>) g))"

text \<open>
  \<open>createLine(game, stations, colorIndex)\<close>. The result pairs the new world state
  with the returned line (\<open>None\<close> for \<open>null\<close>). \<open>game.optimizeTrainAllocation\<close> is
  installed on the game object, so the reallocation always runs.
\<close>

definition createLine :: "game \<Rightarrow> nat list option \<Rightarrow> int option \<Rightarrow> js_error + game \<times> line option" where
  "createLine g stationsArg colorArg =
     (case stationsArg of
        None \<Rightarrow> Inr (g, None)
      | Some sts \<Rightarrow>
          (if length sts < 2 then Inr (g, None)
           else
             (let finalColorIndex =
                    (case colorArg of
                       Some c \<Rightarrow> if c \<ge> 0 then Some c else pickAvailableColorIndex g
                     | None \<Rightarrow> pickAvailableColorIndex g);
                  newId = length (lines g)
              in case calculateLineLength g sts of
                  Inl e \<Rightarrow> Inl e
                | Inr len \<Rightarrow>
                    (let l = \<lparr>lid = newId, lstations = sts, colorIndex = finalColorIndex,
                              isLoop = False, ltrains = [], waypoints = None,
                              totalLength = len\<rparr>
                     in case addConnections newId sts (g\<lparr>lines := lines g @ [l]\<rparr>) of
                         Inl e \<Rightarrow> Inl e
                       | Inr g1 \<Rightarrow>
                           (let g2 = optimizeTrainAllocation g1
                            in Inr (g2, lineAt g2 newId))))))"

section \<open>Grid router (hexgrid.js)\<close>

subsection \<open>Cube coordinates\<close>

record cube =
  cq :: int
  cr :: int
  cs :: int





definition hexDirs :: "cube list" where
  "hexDirs =
     [\<lparr>cq = 1, cr = -1, cs = 0\<rparr>, \<lparr>cq = 1, cr = 0, cs = -1\<rparr>, \<lparr>cq = 0, cr = 1, cs = -1\<rparr>,
      \<lparr>cq = -1, cr = 1, cs = 0\<rparr>, \<lparr>cq = -1, cr = 0, cs = 1\<rparr>, \<lparr>cq = 0, cr = -1, cs = 1\<rparr>]"

definition getHexNeighbors :: "cube \<Rightarrow> cube list" where
  "getHexNeighbors c =
     map (\<lambda>d. \<lparr>cq = cq c + cq d, cr = cr c + cr d, cs = cs c + cs d\<rparr>) hexDirs"

definition hexDistance :: "cube \<Rightarrow> cube \<Rightarrow> real" where
  "hexDistance a b =
     real_of_int (\<bar>cq a - cq b\<bar> + \<bar>cr a - cr b\<bar> + \<bar>cs a - cs b\<bar>) / 2"

subsection \<open>\<open>hexAStar\<close>\<close>

text \<open>
  The search state: the \<open>open\<close> array, the maps \<open>came\<close>, \<open>g\<close> and \<open>f\<close> and the set
  \<open>inOpen\<close>. The string key \<open>q,r,s\<close> of the source identifies a cube, so the maps are
  keyed by the cube itself.
\<close>

record astar =
  openL :: "cube list"
  came :: "cube \<Rightarrow> cube option"
  gScore :: "cube \<Rightarrow> real option"
  fScore :: "cube \<Rightarrow> real option"
  inOpen :: "cube set"










subsection \<open>Corridor bundling\<close>













subsection \<open>Terminal bubbles\<close>








section \<open>Waypoint rebuild (lines.js)\<close>





section \<open>Example worlds\<close>

text \<open>
  Small concrete worlds on which the theorems below are instantiated, and the
  auxiliary notions (walks, invariants, measures) in which they are stated and proved.
\<close>

definition cfg0 :: config where
  "cfg0 = \<lparr>trainSpeed = 0.1, defaultMCT = 10000, mctMultiplier = 0.5,
     defaultTurnaroundMs = 500, maxWaitSeconds = 200, missedConnectionMultiplier = 3,
     hubAndSpokeMode = True, hubSpokeBias = 1.6, hubSpokeBoardingWaitMs = 8000,
     hubLinePriorityBonus = 300, hubDesiredTrainBonus = Some 1, lineColors = [''red'', ''blue''],
     hexSize = 44, bundleThreshold = Some 30, corridorSpacing = Some 15,
     terminalBubbleRadius = Some 88\<rparr>"

definition mkStation :: "nat \<Rightarrow> real \<Rightarrow> real \<Rightarrow> bool \<Rightarrow> bool \<Rightarrow> station" where
  "mkStation i a b fin hub = \<lparr>sid = i, sname = ''S'', sx = a, sy = b, isFinal = fin, isInterchange = hub,
     mctMs = Some 10000, turnaroundMs = Some 500, queue = [], connections = [],
     overflowTimer = 0, isOvercrowded = False\<rparr>"

definition mkPassenger :: "nat \<Rightarrow> nat \<Rightarrow> real \<Rightarrow> passenger" where
  "mkPassenger orig dest t = \<lparr>pid = 0.5, destStation = dest, spawnTime = t, waitTime = 0,
     originStation = orig, transferReadyAt = t, transferCount = 0\<rparr>"

definition mkLine :: "nat \<Rightarrow> nat list \<Rightarrow> nat list \<Rightarrow> real \<Rightarrow> line" where
  "mkLine i sts trs len = \<lparr>lid = i, lstations = sts, colorIndex = Some 0, isLoop = False,
     ltrains = trs, waypoints = None, totalLength = len\<rparr>"

definition mkTrain :: "nat \<Rightarrow> nat \<Rightarrow> real \<Rightarrow> passenger list \<Rightarrow> train" where
  "mkTrain i l pos ps = \<lparr>tid = i, lineId = l, position = pos, direction = 1, passengers = ps,
     capacity = 10, speed = 0.1, lastStationVisited = -1, stationCooldown = 0,
     dwellRemaining = 0\<rparr>"

definition mkGame :: "station option list \<Rightarrow> line list \<Rightarrow> train list \<Rightarrow> game" where
  "mkGame sts ls trs = \<lparr>cfg = cfg0, stations = sts, lines = ls, trains = trs, day = 5,
     gameTime = 1000, gameOver = False, gameOverReason = None, totalPassengers = 0,
     trainsAvailable = 1, carriages = 0\<rparr>"


definition gameA :: game where
  "gameA = mkGame
     [Some (mkStation 0 0 0 False False),
      Some ((mkStation 1 300 0 True False)\<lparr>queue := [mkPassenger 1 0 0], connections := [0]\<rparr>)]
     [mkLine 0 [0, 1] [0] 300]
     [mkTrain 0 0 1 [mkPassenger 0 1 0]]"

definition game0 :: game where
  "game0 = (mkGame [Some (mkStation 0 0 0 False False), Some (mkStation 1 300 0 True False)] [] [])
             \<lparr>day := 1, gameTime := 0\<rparr>"

definition rand0 :: spawn_rand where
  "rand0 = \<lparr>rOrigin = 0, rFinalBias = 0, rPickHub = 0, rDest = 0, rId = 0.5\<rparr>"

definition gameC :: game where
  "gameC = (mkGame [Some (mkStation 0 0 0 False False), Some (mkStation 1 300 0 True False)] [] [])
             \<lparr>trainsAvailable := 0\<rparr>"

definition lineC :: line where
  "lineC = \<lparr>lid = 0, lstations = [0, 0], colorIndex = Some 0, isLoop = False, ltrains = [],
            waypoints = None, totalLength = 0\<rparr>"

definition lineF0 :: line where "lineF0 = mkLine 0 [0, 1] [] 1"
definition lineF1 :: line where "lineF1 = mkLine 1 [1, 2] [0] 199999"

definition gameF :: game where
  "gameF = mkGame
     [Some (mkStation 0 0 0 False False), Some (mkStation 1 1 0 False False),
      Some ((mkStation 2 200000 0 False False)\<lparr>queue := [mkPassenger 2 1 0]\<rparr>)]
     [lineF0, lineF1]
     [mkTrain 0 1 0 []]"

definition lineG0 :: line where "lineG0 = mkLine 0 [0, 1] [] 1"
definition lineG1 :: line where "lineG1 = mkLine 1 [1, 2] [0] 300"

definition gameG :: game where
  "gameG = mkGame
     [Some (mkStation 0 0 0 False False), Some (mkStation 1 1 0 False False),
      Some ((mkStation 2 301 0 False False)\<lparr>queue := [mkPassenger 2 1 0]\<rparr>)]
     [lineG0, lineG1]
     [mkTrain 0 1 0 []]"

definition stationS :: station where
  "stationS = (mkStation 0 0 0 False False)\<lparr>queue := [(mkPassenger 1 0 0)\<lparr>waitTime := 250000\<rparr>]\<rparr>"

definition gameS :: game where
  "gameS = (mkGame [Some stationS, Some (mkStation 1 300 0 True False)] [] [])
             \<lparr>gameTime := 250000\<rparr>"

definition noDraws :: draws where
  "noDraws k = 0"

definition ended :: "bool \<Rightarrow> string option \<Rightarrow> game \<Rightarrow> game" where
  "ended b r g = g\<lparr>gameOver := b, gameOverReason := r\<rparr>"

definition isStranded :: "game \<Rightarrow> station \<Rightarrow> passenger \<Rightarrow> bool" where
  "isStranded g st p = (waitTime p > maxWaitMs g \<and> canBeServed g st p = Inr False)"

definition isMissed :: "game \<Rightarrow> station \<Rightarrow> passenger \<Rightarrow> bool" where
  "isMissed g st p =
     (waitTime p > maxWaitMs g \<and> canBeServed g st p = Inr True \<and> waitTime p > missedWaitMs g)"

text \<open>
  Two worlds with the same network: they differ at most in the queues, overflow
  timers and overcrowding flags of their stations, in the trains and in the
  game-over state.
\<close>

definition sameStation :: "station \<Rightarrow> station \<Rightarrow> bool" where
  "sameStation s s' \<longleftrightarrow>
     sid s' = sid s \<and> sname s' = sname s \<and> sx s' = sx s \<and> sy s' = sy s \<and>
     isFinal s' = isFinal s \<and> isInterchange s' = isInterchange s \<and> mctMs s' = mctMs s \<and>
     connections s' = connections s"

definition sameNet :: "game \<Rightarrow> game \<Rightarrow> bool" where
  "sameNet g g' \<longleftrightarrow>
     cfg g' = cfg g \<and> lines g' = lines g \<and> gameTime g' = gameTime g \<and> day g' = day g \<and>
     list_all2 (rel_option sameStation) (stations g) (stations g')"

definition strandedIdx :: "('a \<Rightarrow> bool) \<Rightarrow> 'a list \<Rightarrow> nat list" where
  "strandedIdx P q = map fst (filter (\<lambda>ip. P (snd ip)) (zip [0..<length q] q))"

definition passengerS :: passenger where
  "passengerS = (mkPassenger 1 0 0)\<lparr>waitTime := 250000\<rparr>"

definition paxA :: passenger where "paxA = (mkPassenger 0 1 0)\<lparr>waitTime := 700000\<rparr>"

definition paxB :: passenger where "paxB = (mkPassenger 0 2 450000)\<lparr>waitTime := 250000\<rparr>"

definition paxC :: passenger where "paxC = (mkPassenger 0 1 699990)\<lparr>waitTime := 10\<rparr>"

definition paxD :: passenger where "paxD = (mkPassenger 1 0 699000)\<lparr>waitTime := 1000\<rparr>"

definition stationT :: station where
  "stationT = (mkStation 0 0 0 False False)\<lparr>queue := [paxA, paxB, paxC], connections := [0]\<rparr>"

definition stationU :: station where
  "stationU = (mkStation 1 300 0 True False)
                \<lparr>queue := [paxD, paxD, paxD, paxD], connections := [0]\<rparr>"

definition gameT :: game where
  "gameT = (mkGame [Some stationT, Some stationU, Some (mkStation 2 600 0 False False)]
                   [mkLine 0 [0, 1] [] 300] [])\<lparr>gameTime := 700000\<rparr>"

definition gameV :: game where
  "gameV = (mkGame [Some stationT, Some (stationU\<lparr>queue := []\<rparr>),
                    Some (mkStation 2 600 0 False False)]
                   [mkLine 0 [0, 1] [] 300] [])\<lparr>gameTime := 700000\<rparr>"

definition tickStep :: "train \<Rightarrow> line \<Rightarrow> real \<Rightarrow> real" where
  "tickStep tr l deltaTime = (speed tr * deltaTime) / max 100 (totalLength l) * direction tr"

definition wrapped01 :: "real \<Rightarrow> real" where
  "wrapped01 proposed =
     (if proposed > 1 then proposed - 1 else if proposed < 0 then proposed + 1
      else loopPlace proposed)"

definition lineL :: line where "lineL = (mkLine 0 [0, 1] [0] 300)\<lparr>isLoop := True\<rparr>"

definition lineM :: line where "lineM = mkLine 0 [0, 1] [0] 300"

definition trainL :: train where "trainL = (mkTrain 0 0 (1 / 2) [])\<lparr>lastStationVisited := 1\<rparr>"

definition gameL :: game where
  "gameL = mkGame [Some (mkStation 0 0 0 False False), Some (mkStation 1 300 0 False False)]
                  [lineL] [trainL]"

definition gameM :: game where
  "gameM = mkGame [Some (mkStation 0 0 0 False False), Some (mkStation 1 300 0 False False)]
                  [lineM] [trainL]"

definition validCube :: "cube \<Rightarrow> bool" where
  "validCube c = (cq c + cr c + cs c = 0)"

definition hexSteps :: "cube \<Rightarrow> cube \<Rightarrow> int" where
  "hexSteps a b = \<bar>cq a - cq b\<bar> + \<bar>cr a - cr b\<bar> + \<bar>cs a - cs b\<bar>"



definition closedSet :: "astar \<Rightarrow> cube set" where
  "closedSet st = {c. gScore st c \<noteq> None \<and> c \<notin> set (openL st)}"

definition ainv :: "cube \<Rightarrow> cube \<Rightarrow> astar \<Rightarrow> bool" where
  "ainv start goal st \<longleftrightarrow>
     validCube start \<and> validCube goal \<and>
     inOpen st = set (openL st) \<and> distinct (openL st) \<and>
     gScore st start = Some 0 \<and> came st start = None \<and>
     (\<forall>n v. gScore st n = Some v \<longrightarrow>
        validCube n \<and> fScore st n = Some (v + hexDistance n goal) \<and>
        hexDistance start n \<le> v \<and> v \<in> \<nat>) \<and>
     (\<forall>n \<in> set (openL st). gScore st n \<noteq> None) \<and>
     (\<forall>c v. gScore st c = Some v \<and> c \<notin> set (openL st) \<longrightarrow>
        c \<noteq> goal \<and> v + hexDistance c goal = hexDistance start goal \<and>
        (\<forall>nb \<in> set (getHexNeighbors c). \<exists>w. gScore st nb = Some w \<and> w \<le> v + 1)) \<and>
     (\<forall>n m. came st n = Some m \<longrightarrow>
        (\<exists>v w. gScore st n = Some v \<and> gScore st m = Some w \<and> w < v)) \<and>
     (\<forall>n. gScore st n \<noteq> None \<and> n \<noteq> start \<longrightarrow> came st n \<noteq> None)"


definition xle :: "xreal \<Rightarrow> xreal \<Rightarrow> bool" where
  "xle a b = (\<not> xless b a)"

definition hopCost :: "game \<Rightarrow> nat \<Rightarrow> nat \<Rightarrow> nat \<Rightarrow> xreal" where
  "hopCost g destIdx v u = xadd (edgeTimeMs g v u) (Fin (nodeTransferMs g u destIdx))"

definition hasEdge :: "game \<Rightarrow> nat \<Rightarrow> nat \<Rightarrow> bool" where
  "hasEdge g a b = ((a, b) \<in> set (graphEdges g) \<or> (b, a) \<in> set (graphEdges g))"

fun isWalk :: "game \<Rightarrow> nat list \<Rightarrow> bool" where
  "isWalk g (a # b # rest) = (hasEdge g a b \<and> isWalk g (b # rest))"
| "isWalk g [a] = True"
| "isWalk g [] = False"

fun walkCost :: "game \<Rightarrow> nat \<Rightarrow> nat list \<Rightarrow> xreal" where
  "walkCost g destIdx (a # b # rest) = xadd (hopCost g destIdx a b) (walkCost g destIdx (b # rest))"
| "walkCost g destIdx _ = Fin 0"

definition walkFrom :: "game \<Rightarrow> nat \<Rightarrow> nat \<Rightarrow> nat list \<Rightarrow> bool" where
  "walkFrom g s destIdx p = (isWalk g p \<and> hd p = s \<and> last p = destIdx)"

text \<open>
  The cost of a walk in the words of the specification, to be compared with the
  one computed from \<open>edgeTimeMs\<close> and \<open>nodeTransferMs\<close>. A station's
  minimum-connection-time is its own \<open>mctMs\<close>, else the configured default, else 12000.
\<close>

definition stationMct :: "game \<Rightarrow> station \<Rightarrow> real" where
  "stationMct g s =
     (case mctMs s of
        Some m \<Rightarrow> m
      | None \<Rightarrow> (if defaultMCT (cfg g) = 0 then 12000 else defaultMCT (cfg g)))"

text \<open>
  As the claim states it: the distance between the two stations divided by the
  configured speed, and at a node other than the destination the station's
  minimum-connection-time, times 0.7 at an interchange, times the global multiplier.
\<close>

definition claimedEdgeTime :: "game \<Rightarrow> nat \<Rightarrow> nat \<Rightarrow> xreal" where
  "claimedEdgeTime g a b =
     (case stationAt g a of
        None \<Rightarrow> PInf
      | Some A \<Rightarrow>
          (case stationAt g b of
             None \<Rightarrow> PInf
           | Some B \<Rightarrow> Fin (sqrt ((sx B - sx A)\<^sup>2 + (sy B - sy A)\<^sup>2) / trainSpeed (cfg g))))"

definition claimedPenalty :: "game \<Rightarrow> nat \<Rightarrow> nat \<Rightarrow> real" where
  "claimedPenalty g destIdx u =
     (if u = destIdx then 0
      else case stationAt g u of
          None \<Rightarrow> 0
        | Some s \<Rightarrow> stationMct g s * (if isInterchange s then 7 / 10 else 1) * mctMultiplier (cfg g))"

fun claimedWalkCost :: "game \<Rightarrow> nat \<Rightarrow> nat list \<Rightarrow> xreal" where
  "claimedWalkCost g destIdx (a # b # rest) =
     xadd (xadd (claimedEdgeTime g a b) (Fin (claimedPenalty g destIdx b)))
          (claimedWalkCost g destIdx (b # rest))"
| "claimedWalkCost g destIdx _ = Fin 0"

text \<open>
  As amended: the speed is 0.06 when it is configured as 0 and never below
  \<open>1e-6\<close>, and the multiplier is 1 when it is configured as 0.
\<close>

definition specSpeed :: "game \<Rightarrow> real" where
  "specSpeed g = max (1 / 1000000) (if trainSpeed (cfg g) = 0 then 6 / 100 else trainSpeed (cfg g))"

definition specEdgeTime :: "game \<Rightarrow> nat \<Rightarrow> nat \<Rightarrow> xreal" where
  "specEdgeTime g a b =
     (case stationAt g a of
        None \<Rightarrow> PInf
      | Some A \<Rightarrow>
          (case stationAt g b of
             None \<Rightarrow> PInf
           | Some B \<Rightarrow> Fin (sqrt ((sx B - sx A)\<^sup>2 + (sy B - sy A)\<^sup>2) / specSpeed g)))"

definition specPenalty :: "game \<Rightarrow> nat \<Rightarrow> nat \<Rightarrow> real" where
  "specPenalty g destIdx u =
     (if u = destIdx then 0
      else case stationAt g u of
          None \<Rightarrow> 0
        | Some s \<Rightarrow>
            stationMct g s * (if isInterchange s then 7 / 10 else 1)
              * (if mctMultiplier (cfg g) = 0 then 1 else mctMultiplier (cfg g)))"

fun specWalkCost :: "game \<Rightarrow> nat \<Rightarrow> nat list \<Rightarrow> xreal" where
  "specWalkCost g destIdx (a # b # rest) =
     xadd (xadd (specEdgeTime g a b) (Fin (specPenalty g destIdx b)))
          (specWalkCost g destIdx (b # rest))"
| "specWalkCost g destIdx _ = Fin 0"

definition goodAdj :: "game \<Rightarrow> nat list list \<Rightarrow> bool" where
  "goodAdj g adj \<longleftrightarrow>
     (\<forall>u<length adj. \<forall>v\<in>set (adj ! u). v < length adj \<and> hasEdge g v u) \<and>
     (\<forall>a b. hasEdge g a b \<longrightarrow> a < length adj \<and> b < length adj \<and> a \<in> set (adj ! b))"

definition dinv :: "game \<Rightarrow> nat \<Rightarrow> nat list list \<Rightarrow> xreal list \<Rightarrow> bool list \<Rightarrow> bool" where
  "dinv g destIdx adj eta visited \<longleftrightarrow>
     length eta = length adj \<and> length visited = length adj \<and> destIdx < length adj \<and>
     eta ! destIdx = Fin 0 \<and>
     (\<forall>v<length adj. xle (Fin 0) (eta ! v)) \<and>
     (\<forall>v<length adj. \<forall>c. eta ! v = Fin c \<longrightarrow>
        (\<exists>p. walkFrom g v destIdx p \<and> walkCost g destIdx p = Fin c)) \<and>
     (\<forall>u<length adj. visited ! u \<longrightarrow>
        (\<forall>v\<in>set (adj ! u). xle (eta ! v) (xadd (hopCost g destIdx v u) (eta ! u)))) \<and>
     (\<forall>u<length adj. \<forall>v<length adj. visited ! u \<longrightarrow> \<not> visited ! v \<longrightarrow> xle (eta ! u) (eta ! v))"

definition gameZ :: game where
  "gameZ = (mkGame [Some (mkStation 0 0 0 False False), Some (mkStation 1 300 0 False False),
                    Some (mkStation 2 600 0 True False)]
                   [mkLine 0 [0, 1, 2] [] 600] [])\<lparr>cfg := cfg0\<lparr>mctMultiplier := 0\<rparr>\<rparr>"

definition gameN :: game where
  "gameN = mkGame [Some (mkStation 0 0 0 False False),
                   Some ((mkStation 1 300 0 False False)\<lparr>mctMs := Some (- 20000)\<rparr>),
                   Some (mkStation 2 600 0 True False)]
                  [mkLine 0 [0, 1, 2] [] 600] []"

definition gameD :: game where
  "gameD = mkGame [Some (mkStation 0 0 0 False False), Some (mkStation 1 300 0 False False),
                   Some (mkStation 2 600 0 True False)]
                  [mkLine 0 [0, 1, 2] [] 600, mkLine 1 [0, 2] [] 600] []"

chapter \<open>Verified properties\<close>

lemmas mk_defs = cfg0_def mkStation_def mkPassenger_def mkLine_def mkTrain_def mkGame_def

section \<open>Spawned passengers never target their origin\<close>

lemma js_nth_mem: "js_nth xs i = Some v \<Longrightarrow> v \<in> set xs"
  by (auto simp: js_nth_def split: if_splits)

lemma pick_mem: "pick xs r = Some v \<Longrightarrow> v \<in> set xs"
  unfolding pick_def by (rule js_nth_mem)

lemma pick_in_range:
  assumes "0 \<le> r" "r < 1" "xs \<noteq> []"
  shows "\<exists>v. pick xs r = Some v"
proof -
  let ?n = "real (length xs)"
  have n: "0 < ?n" using assms(3) by simp
  have lo: "0 \<le> \<lfloor>r * ?n\<rfloor>" using assms(1) n by simp
  have "r * ?n < ?n" using assms(2) n by simp
  then have "\<lfloor>r * ?n\<rfloor> < int (length xs)" by (simp add: floor_less_iff)
  then have "nat \<lfloor>r * ?n\<rfloor> < length xs" using lo by linarith
  then show ?thesis using lo by (simp add: pick_def js_nth_def)
qed

lemma orThrow_mem: "orThrow (pick xs r) = Inr (Some d) \<Longrightarrow> d \<in> set xs"
  by (auto simp: orThrow_def split: option.splits dest: pick_mem)

lemma chooseDest_differs:
  assumes "chooseDest g r originIndex = Inr (Some dest)"
  shows "sid dest \<noteq> originIndex"
proof -
  let ?finals = "filter (\<lambda>s. sid s \<noteq> originIndex \<and> isFinal s) (presentStations g)"
  let ?others = "filter (\<lambda>s. sid s \<noteq> originIndex \<and> \<not> isFinal s) (presentStations g)"
  have "dest \<in> set ?finals \<or> dest \<in> set ?others \<or> dest \<in> set (filter isInterchange ?others)"
    using assms unfolding chooseDest_def Let_def
    by (auto split: if_splits dest!: orThrow_mem)
  then show ?thesis by auto
qed

text \<open>
  Claim C10. Whenever \<open>spawnPassenger\<close> creates a passenger, its destination station
  id differs from its origin station id, the passenger is appended to the origin's
  queue and the passenger counter grows by one; and when the game is over or fewer
  than two station slots exist, nothing is created and the state is unchanged.
\<close>

theorem spawnPassenger_dest_differs:
  "(spawnPassenger g r = Inr (g', Some p) \<longrightarrow>
      destStation p \<noteq> originStation p \<and> totalPassengers g' = totalPassengers g + 1 \<and>
      (\<exists>slot origin. stationAt g slot = Some origin \<and> sid origin = originStation p \<and>
         stationAt g' slot = Some (origin\<lparr>queue := queue origin @ [p]\<rparr>))) \<and>
   (gameOver g \<or> length (stations g) < 2 \<longrightarrow> spawnPassenger g r = Inr (g, None))"
proof (intro conjI impI)
  assume sp: "spawnPassenger g r = Inr (g', Some p)"
  from sp obtain slot origin dest where
    slot: "pick (originSlots g) (rOrigin r) = Some slot" and
    origin: "stations g ! slot = Some origin" and
    dest: "chooseDest g r (sid origin) = Inr (Some dest)" and
    p: "p = newPassenger g r (sid origin) dest" and
    g': "g' = g\<lparr>stations := (stations g)[slot := Some (origin\<lparr>queue := queue origin @ [p]\<rparr>)],
                totalPassengers := totalPassengers g + 1\<rparr>"
    unfolding spawnPassenger_def Let_def
    by (auto split: if_splits option.splits sum.splits)
  have "slot \<in> set (originSlots g)" using slot by (rule pick_mem)
  then have "slot \<in> set (candidateSlots g)"
    by (auto simp: originSlots_def Let_def split: if_splits)
  then have lt: "slot < length (stations g)" by (simp add: candidateSlots_def)
  show "destStation p \<noteq> originStation p"
    using chooseDest_differs [OF dest] by (simp add: p newPassenger_def)
  show "totalPassengers g' = totalPassengers g + 1" by (simp add: g')
  have "stationAt g slot = Some origin" using lt origin by (simp add: stationAt_def)
  moreover have "sid origin = originStation p" by (simp add: p newPassenger_def)
  moreover have "stationAt g' slot = Some (origin\<lparr>queue := queue origin @ [p]\<rparr>)"
    using lt by (simp add: stationAt_def g')
  ultimately show "\<exists>slot origin. stationAt g slot = Some origin \<and> sid origin = originStation p \<and>
         stationAt g' slot = Some (origin\<lparr>queue := queue origin @ [p]\<rparr>)"
    by blast
next
  assume "gameOver g \<or> length (stations g) < 2"
  then show "spawnPassenger g r = Inr (g, None)" by (auto simp: spawnPassenger_def)
qed

lemma spawn0:
  "\<exists>g' p. spawnPassenger game0 rand0 = Inr (g', Some p) \<and> destStation p = 1 \<and> originStation p = 0"
  by (simp add: spawnPassenger_def originSlots_def candidateSlots_def dynamicCap_def js_round_def
      game0_def rand0_def mk_defs pick_def js_nth_def chooseDest_def presentStations_def
      orThrow_def finalBias_def newPassenger_def upt_rec Let_def)

theorem spawnPassenger_dest_differs_witness:
  "\<exists>g' p. spawnPassenger game0 rand0 = Inr (g', Some p) \<and> destStation p \<noteq> originStation p \<and>
     totalPassengers g' = totalPassengers game0 + 1"
proof -
  obtain g' p where sp: "spawnPassenger game0 rand0 = Inr (g', Some p)" using spawn0 by blast
  with spawnPassenger_dest_differs [of game0 rand0 g' p] show ?thesis by blast
qed

section \<open>Capacity is respected by an arrival\<close>

lemma disembark_length: "length (fst (disembark g l st ps)) \<le> length ps"
  by (induction ps) (auto simp: Let_def split: prod.splits)

lemma boardQueue_bound:
  "boardQueue sb now cap picked q = Inr (boarded, keep) \<Longrightarrow> picked \<le> cap \<Longrightarrow>
   int (length boarded) \<le> cap - picked"
proof (induction q arbitrary: picked boarded keep)
  case Nil
  then show ?case by simp
next
  case (Cons p ps)
  show ?case
  proof (cases "picked \<ge> cap \<or> now < or_default (transferReadyAt p) 0")
    case True
    then obtain b k where r: "boardQueue sb now cap picked ps = Inr (b, k)" and "boarded = b"
      using Cons.prems(1) by (auto split: sum.splits prod.splits)
    then show ?thesis using Cons.IH [OF r Cons.prems(2)] by simp
  next
    case False
    then have lt: "picked < cap" by simp
    show ?thesis
    proof (cases "sb p")
      case (Inl e)
      then show ?thesis using Cons.prems(1) False by simp
    next
      case (Inr b)
      show ?thesis
      proof (cases b)
        case True
        then obtain b' k where r: "boardQueue sb now cap (picked + 1) ps = Inr (b', k)"
          and bd: "boarded = p # b'"
          using Cons.prems(1) False Inr by (auto split: sum.splits prod.splits)
        have "picked + 1 \<le> cap" using lt by simp
        from Cons.IH [OF r this] show ?thesis using bd by simp
      next
        case False2: False
        then obtain b' k where r: "boardQueue sb now cap picked ps = Inr (b', k)"
          and bd: "boarded = b'"
          using Cons.prems(1) False Inr by (auto split: sum.splits prod.splits)
        from Cons.IH [OF r Cons.prems(2)] show ?thesis using bd by simp
      qed
    qed
  qed
qed

lemma trainAt_putTrain: "ti < length (trains g) \<Longrightarrow> trainAt (putTrain ti tr g) ti = Some tr"
  by (simp add: trainAt_def putTrain_def)

lemma trains_putStation: "trains (putStation si st g) = trains g"
  by (simp add: putStation_def)

lemma length_trains_putTrain: "length (trains (putTrain ti tr g)) = length (trains g)"
  by (simp add: putTrain_def)

text \<open>
  Claim C7. If a vehicle carries at most \<open>capacity\<close> passengers before
  \<open>handleStationArrival\<close> (disembark, transfer push-back, boarding), it carries at
  most \<open>capacity\<close> passengers afterwards, whatever the station and its queue hold.
\<close>

theorem handleStationArrival_capacity:
  assumes tr: "trainAt g ti = Some tr"
    and le: "int (length (passengers tr)) \<le> capacity tr"
    and run: "handleStationArrival g ti si = Inr g'"
  shows "\<exists>tr'. trainAt g' ti = Some tr' \<and> capacity tr' = capacity tr \<and>
               int (length (passengers tr')) \<le> capacity tr'"
proof -
  have ti: "ti < length (trains g)" using tr by (simp add: trainAt_def split: if_splits)
  obtain st where st: "stationAt g si = Some st"
    using run tr by (auto simp: handleStationArrival_def split: option.splits)
  show ?thesis
  proof (cases "lineAt g (lineId tr)")
    case None
    then have "g' = g" using run tr st by (simp add: handleStationArrival_def)
    then show ?thesis using tr le by simp
  next
    case (Some l)
    obtain remaining pushed where d: "disembark g l st (passengers tr) = (remaining, pushed)"
      by (cases "disembark g l st (passengers tr)")
    have rl: "length remaining \<le> length (passengers tr)"
      using disembark_length [of g l st "passengers tr"] d by simp
    define st1 where "st1 = st\<lparr>queue := queue st @ pushed\<rparr>"
    define tr1 where "tr1 = tr\<lparr>passengers := remaining\<rparr>"
    define g1 where "g1 = putTrain ti tr1 (putStation si st1 g)"
    define cap where "cap = capacity tr1 - int (length (passengers tr1))"
    have ti1: "ti < length (trains g1)"
      using ti by (simp add: g1_def putTrain_def putStation_def)
    have unfold: "handleStationArrival g ti si =
        (if cap \<le> 0 then Inr g1
         else case boardQueue (shouldBoardLineHere g1 l (sid st1)) (gameTime g1) cap 0 (queue st1) of
                Inl e \<Rightarrow> Inl e
              | Inr (boarded, keep) \<Rightarrow>
                  Inr (putTrain ti (tr1\<lparr>passengers := remaining @ boarded\<rparr>)
                         (putStation si (st1\<lparr>queue := keep\<rparr>) g1)))"
      unfolding handleStationArrival_def st1_def tr1_def g1_def cap_def Let_def
      by (simp add: tr st Some d)
    show ?thesis
    proof (cases "cap \<le> 0")
      case True
      then have "g' = g1" using run unfold by simp
      moreover have "trainAt g1 ti = Some tr1"
        unfolding g1_def using ti by (simp add: trainAt_putTrain trains_putStation)
      ultimately show ?thesis using rl le by (simp add: tr1_def)
    next
      case False
      then obtain boarded keep where
        b: "boardQueue (shouldBoardLineHere g1 l (sid st1)) (gameTime g1) cap 0 (queue st1)
              = Inr (boarded, keep)" and
        g': "g' = putTrain ti (tr1\<lparr>passengers := remaining @ boarded\<rparr>)
                    (putStation si (st1\<lparr>queue := keep\<rparr>) g1)"
        using run unfold by (auto split: sum.splits prod.splits)
      have "int (length boarded) \<le> cap - 0"
        by (rule boardQueue_bound [OF b]) (use False in simp)
      then have "int (length (remaining @ boarded)) \<le> capacity tr"
        by (simp add: cap_def tr1_def)
      moreover have "trainAt g' ti = Some (tr1\<lparr>passengers := remaining @ boarded\<rparr>)"
        unfolding g' using ti1 by (simp add: trainAt_putTrain trains_putStation)
      ultimately show ?thesis by (simp add: tr1_def)
    qed
  qed
qed

lemma arrivalA:
  "handleStationArrival gameA 0 1 =
     Inr (putTrain 0 ((mkTrain 0 0 1 [])\<lparr>passengers := [mkPassenger 1 0 0]\<rparr>)
            (putStation 1 ((mkStation 1 300 0 True False)\<lparr>queue := [], connections := [0]\<rparr>) gameA))"
  by (simp add: handleStationArrival_def gameA_def mk_defs trainAt_def stationAt_def lineAt_def
      putTrain_def putStation_def shouldBoardLineHere_def or_default_def Let_def)

theorem handleStationArrival_capacity_witness:
  "\<exists>g' tr'. handleStationArrival gameA 0 1 = Inr g' \<and> trainAt g' 0 = Some tr' \<and>
      length (passengers tr') = 1 \<and> int (length (passengers tr')) \<le> capacity tr'"
proof -
  let ?tr = "mkTrain 0 0 1 [mkPassenger 0 1 0]"
  have t: "trainAt gameA 0 = Some ?tr" by (simp add: trainAt_def gameA_def mkGame_def)
  have c: "int (length (passengers ?tr)) \<le> capacity ?tr" by (simp add: mkTrain_def)
  from handleStationArrival_capacity [OF t c arrivalA]
  show ?thesis using arrivalA by (auto simp: trainAt_def putTrain_def putStation_def gameA_def mkGame_def mkTrain_def)
qed

section \<open>Dwell duration\<close>

lemma trainAt_handleStationArrival_fields:
  assumes "handleStationArrival g ti si = Inr g'" "stationAt g sj = Some st"
  shows "cfg g' = cfg g \<and> day g' = day g \<and>
         (\<exists>st'. stationAt g' sj = Some st' \<and> turnaroundMs st' = turnaroundMs st \<and>
                 isOvercrowded st' = isOvercrowded st \<and> isInterchange st' = isInterchange st)"
proof -
  obtain tr st0 where tr: "trainAt g ti = Some tr" and st0: "stationAt g si = Some st0"
    using assms(1) by (auto simp: handleStationArrival_def split: option.splits)
  have sj: "sj < length (stations g)" using assms(2) by (simp add: stationAt_def split: if_splits)
  show ?thesis
  proof (cases "lineAt g (lineId tr)")
    case None
    then have "g' = g" using assms(1) tr st0 by (simp add: handleStationArrival_def)
    then show ?thesis using assms(2) by simp
  next
    case (Some l)
    obtain remaining pushed where d: "disembark g l st0 (passengers tr) = (remaining, pushed)"
      by (cases "disembark g l st0 (passengers tr)")
    have "\<exists>q1. g' = putTrain ti (tr\<lparr>passengers := remaining\<rparr>)
                      (putStation si (st0\<lparr>queue := queue st0 @ pushed\<rparr>) g) \<or>
          (\<exists>b k. g' = putTrain ti (tr\<lparr>passengers := remaining @ b\<rparr>)
                      (putStation si (st0\<lparr>queue := k\<rparr>)
                       (putTrain ti (tr\<lparr>passengers := remaining\<rparr>)
                      (putStation si (st0\<lparr>queue := queue st0 @ pushed\<rparr>) g))))"
      using assms(1) tr st0 Some d unfolding handleStationArrival_def Let_def
      by (auto split: if_splits sum.splits prod.splits)
    then show ?thesis using assms(2) st0 sj
      by (cases "sj = si") (auto simp: putTrain_def putStation_def stationAt_def)
  qed
qed

text \<open>
  Claim C2, as amended. On every arrival the dwell is the station's turnaround time
  (or the configured default) times an early-game factor (0.8 up to day 3), a
  congestion factor (0.8 when the station is overcrowded) and a type factor (0.8 for
  an interchange). With station, day and turnaround time fixed, the dwell of an
  overcrowded station is 0.8 times the dwell of a clear one, hence no larger for a
  non-negative turnaround time.
\<close>

theorem dwell_overcrowded_shorter:
  "(arriveAtStationIdx g ti l idx = Inr g' \<and> stationAt g (lstations l ! idx) = Some st \<longrightarrow>
      (\<exists>tr'. trainAt g' ti = Some tr' \<and> dwellRemaining tr' = dwellDuration g st)) \<and>
   dwellDuration g st =
     nullish (turnaroundMs st) (or_default (defaultTurnaroundMs (cfg g)) 600)
       * (if day g \<noteq> 0 \<and> day g \<le> 3 then 0.8 else 1)
       * (if isOvercrowded st then 0.8 else 1) * (if isInterchange st then 0.8 else 1) \<and>
   dwellDuration g (st\<lparr>isOvercrowded := True\<rparr>) = 0.8 * dwellDuration g (st\<lparr>isOvercrowded := False\<rparr>) \<and>
   (0 \<le> nullish (turnaroundMs st) (or_default (defaultTurnaroundMs (cfg g)) 600) \<longrightarrow>
      dwellDuration g (st\<lparr>isOvercrowded := True\<rparr>) \<le> dwellDuration g (st\<lparr>isOvercrowded := False\<rparr>))"
proof (intro conjI impI)
  assume a: "arriveAtStationIdx g ti l idx = Inr g' \<and> stationAt g (lstations l ! idx) = Some st"
  let ?si = "lstations l ! idx"
  from a obtain g1 where h: "handleStationArrival g ti ?si = Inr g1"
    by (auto simp: arriveAtStationIdx_def Let_def split: sum.splits)
  from trainAt_handleStationArrival_fields [OF h] a obtain st' where
    f: "cfg g1 = cfg g" "day g1 = day g" "stationAt g1 ?si = Some st'"
       "turnaroundMs st' = turnaroundMs st" "isOvercrowded st' = isOvercrowded st"
       "isInterchange st' = isInterchange st" by blast
  have dd: "dwellDuration g1 st' = dwellDuration g st"
    using f by (simp add: dwellDuration_def earlyDwellFactor_def crowdFactor_def typeFactor_def)
  from a h f(3) obtain tr where tr: "trainAt g1 ti = Some tr"
    by (auto simp: arriveAtStationIdx_def Let_def split: option.splits)
  then have ti: "ti < length (trains g1)" by (simp add: trainAt_def split: if_splits)
  have "trainAt g' ti = Some (tr\<lparr>lastStationVisited := int ?si, stationCooldown := 600,
          dwellRemaining := dwellDuration g1 st',
          direction := (if \<not> isLoop l \<and> (idx = 0 \<or> idx = length (lstations l) - 1)
                        then direction tr * (-1) else direction tr)\<rparr>)"
    using a h f(3) tr ti by (auto simp: arriveAtStationIdx_def Let_def trainAt_putTrain)
  then show "\<exists>tr'. trainAt g' ti = Some tr' \<and> dwellRemaining tr' = dwellDuration g st"
    using dd by simp
next
  show "dwellDuration g st =
     nullish (turnaroundMs st) (or_default (defaultTurnaroundMs (cfg g)) 600)
       * (if day g \<noteq> 0 \<and> day g \<le> 3 then 0.8 else 1)
       * (if isOvercrowded st then 0.8 else 1) * (if isInterchange st then 0.8 else 1)"
    by (simp add: dwellDuration_def earlyDwellFactor_def crowdFactor_def typeFactor_def)
next
  show e: "dwellDuration g (st\<lparr>isOvercrowded := True\<rparr>) = 0.8 * dwellDuration g (st\<lparr>isOvercrowded := False\<rparr>)"
    by (simp add: dwellDuration_def crowdFactor_def typeFactor_def)
next
  assume nn: "0 \<le> nullish (turnaroundMs st) (or_default (defaultTurnaroundMs (cfg g)) 600)"
  have "0 \<le> dwellDuration g (st\<lparr>isOvercrowded := False\<rparr>)"
    using nn by (simp add: dwellDuration_def earlyDwellFactor_def crowdFactor_def typeFactor_def)
  moreover have "dwellDuration g (st\<lparr>isOvercrowded := True\<rparr>) = 0.8 * dwellDuration g (st\<lparr>isOvercrowded := False\<rparr>)"
    by (simp add: dwellDuration_def crowdFactor_def typeFactor_def)
  ultimately show "dwellDuration g (st\<lparr>isOvercrowded := True\<rparr>) \<le> dwellDuration g (st\<lparr>isOvercrowded := False\<rparr>)"
    by simp
qed

theorem dwell_overcrowded_shorter_witness:
  "0 \<le> nullish (turnaroundMs (mkStation 1 300 0 True False))
            (or_default (defaultTurnaroundMs (cfg gameA)) 600) \<and>
   dwellDuration gameA ((mkStation 1 300 0 True False)\<lparr>isOvercrowded := True\<rparr>)
     \<le> dwellDuration gameA ((mkStation 1 300 0 True False)\<lparr>isOvercrowded := False\<rparr>)"
proof -
  have h: "0 \<le> nullish (turnaroundMs (mkStation 1 300 0 True False))
                   (or_default (defaultTurnaroundMs (cfg gameA)) 600)"
    by (simp add: nullish_def mkStation_def)
  with dwell_overcrowded_shorter
         [of gameA 0 "mkLine 0 [0, 1] [0] 300" 1 gameA "mkStation 1 300 0 True False"]
  show ?thesis by blast
qed

text \<open>
  The claim as stated (the dwell of an overcrowded station is no smaller) fails: a
  500 ms turnaround gives 400 ms when overcrowded and 500 ms when clear.
\<close>

theorem dwell_overcrowded_counterexample:
  "\<not> (dwellDuration gameA ((mkStation 1 300 0 True False)\<lparr>isOvercrowded := True\<rparr>)
       \<ge> dwellDuration gameA ((mkStation 1 300 0 True False)\<lparr>isOvercrowded := False\<rparr>))"
  by (simp add: dwellDuration_def earlyDwellFactor_def crowdFactor_def typeFactor_def nullish_def
      gameA_def mk_defs)

section \<open>Line creation rejects short station lists\<close>

text \<open>
  Claim C3, as amended. A call of \<open>createLine\<close> whose station-id argument is
  missing or has fewer than two entries returns \<open>null\<close> and leaves the world state
  unchanged: no line is added, no connection set is touched, no counter changes.
\<close>

theorem createLine_rejects_short:
  "(stationsArg = None \<or> (\<exists>sts. stationsArg = Some sts \<and> length sts < 2)) \<longrightarrow>
     createLine g stationsArg colorArg = Inr (g, None)"
  by (auto simp: createLine_def)

theorem createLine_rejects_short_witness:
  "createLine gameA (Some [0]) None = Inr (gameA, None)"
  using createLine_rejects_short [of "Some [0]" gameA None] by simp

text \<open>
  The claim as stated also covers lists with two equal ids. \<open>createLine\<close> has no
  such test: the list \<open>[0, 0]\<close> creates a line of length 0 and registers it in
  station 0.
\<close>

theorem createLine_duplicate_counterexample:
  "createLine gameC (Some [0, 0]) None =
     Inr (gameC\<lparr>lines := [lineC],
                stations := [Some ((mkStation 0 0 0 False False)\<lparr>connections := [0]\<rparr>),
                             Some (mkStation 1 300 0 True False)]\<rparr>, Some lineC)"
  by (simp add: createLine_def gameC_def lineC_def mk_defs pickAvailableColorIndex_def
      stationAt_def lineAt_def hypot_def putStation_def optimizeTrainAllocation_def Let_def upt_rec)

section \<open>Fleet allocation: the zero-vehicle boost\<close>

lemma desiredTrains_pos: "1 \<le> desiredTrains g l"
  by (simp add: desiredTrains_def Let_def)

lemma allocate_single:
  assumes "trainsAvailable g = 1" "1 \<le> deficit stats" "createTrain g (statLineId stats) = (g1, Some tr)"
    "trainsAvailable g1 = 1"
  shows "allocate (stats # rest) g = g1\<lparr>trainsAvailable := 0\<rparr>"
proof -
  have n: "nat (min (deficit stats) (trainsAvailable g)) = Suc 0" using assms(1,2) by simp
  have "addTrains (statLineId stats) (Suc 0) g = g1\<lparr>trainsAvailable := 0\<rparr>"
    using assms by simp
  moreover have "allocate rest (g1\<lparr>trainsAvailable := 0\<rparr>) = g1\<lparr>trainsAvailable := 0\<rparr>"
    by (cases rest) simp_all
  ultimately show ?thesis using assms(1,2) n by simp
qed

lemma createTrain_ok:
  assumes "z < length (lines g)" "2 \<le> length (lstations (lines g ! z))"
  shows "createTrain g z =
           (g\<lparr>lines := (lines g)[z := (lines g ! z)\<lparr>ltrains := ltrains (lines g ! z) @ [length (trains g)]\<rparr>],
               trains := trains g @ [newTrainFor g z]\<rparr>, Some (newTrainFor g z))"
  using assms by (simp add: createTrain_def lineAt_def Let_def newTrainFor_def)

text \<open>
  Claim C8, as amended. With one vehicle in the pool and two lines (whose ids are
  their slots), one of them without vehicles and with at least two stations, the
  other with at least one vehicle: if the other line's length plus 50 times its
  demand plus its hub bonus stays below 100000 plus the same sum for the
  zero-vehicle line, the zero-vehicle line has the higher priority and receives the
  vehicle; the pool is empty afterwards and the other line is unchanged.
\<close>

theorem zero_vehicle_line_first:
  assumes two: "length (lines g) = 2"
    and zo: "z < 2" "other = 1 - z"
    and ids: "lid (lines g ! z) = z"
    and pool: "trainsAvailable g = 1"
    and zero: "ltrains (lines g ! z) = []"
    and some: "ltrains (lines g ! other) \<noteq> []"
    and sts: "2 \<le> length (lstations (lines g ! z))"
    and bound: "or_default (totalLength (lines g ! other)) 0
                  + real (calculateLineDemand g (lines g ! other)) * 50
                  + hubPriority g (lines g ! other)
                < 100000 + or_default (totalLength (lines g ! z)) 0
                  + real (calculateLineDemand g (lines g ! z)) * 50 + hubPriority g (lines g ! z)"
  shows "linePriority g (lines g ! other) < linePriority g (lines g ! z) \<and>
         optimizeTrainAllocation g =
           g\<lparr>lines := (lines g)[z := (lines g ! z)\<lparr>ltrains := [length (trains g)]\<rparr>],
             trains := trains g @ [newTrainFor g z], trainsAvailable := 0\<rparr>"
proof
  let ?Z = "lines g ! z" and ?O = "lines g ! other"
  show pr: "linePriority g ?O < linePriority g ?Z"
    using bound zero some by (simp add: linePriority_def zeroTrainBoost_def)
  obtain L0 L1 where ls: "lines g = [L0, L1]"
    using two by (cases "lines g"; cases "tl (lines g)") auto
  have def: "1 \<le> deficit (lineStats g ?Z)"
    using desiredTrains_pos [of g ?Z] zero by (simp add: lineStats_def)
  have zlt: "z < length (lines g)" using zo two by simp
  let ?g1 = "g\<lparr>lines := (lines g)[z := ?Z\<lparr>ltrains := ltrains ?Z @ [length (trains g)]\<rparr>],
               trains := trains g @ [newTrainFor g z]\<rparr>"
  have ct: "createTrain g (statLineId (lineStats g ?Z)) = (?g1, Some (newTrainFor g z))"
    using createTrain_ok [OF zlt sts] ids by (simp add: lineStats_def)
  have sorted: "\<exists>rest. sortStats (map (lineStats g) (lines g)) = lineStats g ?Z # rest"
  proof (cases "z = 0")
    case True
    then have "other = 1" using zo by simp
    then show ?thesis using True pr ls by (simp add: sortStats_def lineStats_def)
  next
    case False
    then have "z = 1" "other = 0" using zo by simp_all
    then show ?thesis using pr ls by (simp add: sortStats_def lineStats_def)
  qed
  then obtain rest where r: "sortStats (map (lineStats g) (lines g)) = lineStats g ?Z # rest" ..
  have "allocate (lineStats g ?Z # rest) g = ?g1\<lparr>trainsAvailable := 0\<rparr>"
    by (rule allocate_single [OF pool def ct]) (simp add: pool)
  then show "optimizeTrainAllocation g =
           g\<lparr>lines := (lines g)[z := ?Z\<lparr>ltrains := [length (trains g)]\<rparr>],
             trains := trains g @ [newTrainFor g z], trainsAvailable := 0\<rparr>"
    using pool r zero by (simp add: optimizeTrainAllocation_def)
qed


lemma stationsG:
  "stationAt gameG 0 = Some (mkStation 0 0 0 False False)"
  "stationAt gameG (Suc 0) = Some (mkStation 1 1 0 False False)"
  "stationAt gameG 2 = Some ((mkStation 2 301 0 False False)\<lparr>queue := [mkPassenger 2 1 0]\<rparr>)"
  by (simp_all add: stationAt_def gameG_def mkGame_def)

lemma demandG0: "calculateLineDemand gameG lineG0 = 0"
  by (simp add: calculateLineDemand_def lineG0_def mkLine_def stationsG mkStation_def)

lemma demandG1: "calculateLineDemand gameG lineG1 = 2"
  by (simp add: calculateLineDemand_def passengerDemand_def lineG1_def mkLine_def stationsG
      mkStation_def mkPassenger_def)

lemma hubG0: "hubPriority gameG lineG0 = 0"
  by (simp add: hubPriority_def connectsHub_def isHubStation_def lineG0_def mkLine_def stationsG mkStation_def)

lemma hubG1: "hubPriority gameG lineG1 = 0"
  by (simp add: hubPriority_def connectsHub_def isHubStation_def lineG1_def mkLine_def stationsG mkStation_def)

lemma linesG: "lines gameG = [lineG0, lineG1]"
  by (simp add: gameG_def mkGame_def)

theorem zero_vehicle_line_first_witness:
  "calculateLineDemand gameG lineG0 < calculateLineDemand gameG lineG1 \<and>
   linePriority gameG lineG1 < linePriority gameG lineG0 \<and>
   optimizeTrainAllocation gameG =
     gameG\<lparr>lines := [lineG0\<lparr>ltrains := [1]\<rparr>, lineG1],
            trains := trains gameG @ [newTrainFor gameG 0], trainsAvailable := 0\<rparr>"
proof -
  have a: "length (lines gameG) = 2" "(0::nat) < 2" "(1::nat) = 1 - 0" "lid (lines gameG ! 0) = 0"
    "trainsAvailable gameG = 1" "ltrains (lines gameG ! 0) = []" "ltrains (lines gameG ! 1) \<noteq> []"
    "2 \<le> length (lstations (lines gameG ! 0))"
    by (simp_all add: linesG) (simp_all add: lineG0_def lineG1_def mkLine_def gameG_def mkGame_def)
  have b: "or_default (totalLength (lines gameG ! 1)) 0
             + real (calculateLineDemand gameG (lines gameG ! 1)) * 50
             + hubPriority gameG (lines gameG ! 1)
           < 100000 + or_default (totalLength (lines gameG ! 0)) 0
             + real (calculateLineDemand gameG (lines gameG ! 0)) * 50
             + hubPriority gameG (lines gameG ! 0)"
    by (simp add: linesG demandG0 demandG1 hubG0 hubG1 or_default_def)
       (simp add: lineG0_def lineG1_def mkLine_def)
  from zero_vehicle_line_first [OF a b]
  show ?thesis by (simp add: linesG demandG0 demandG1) (simp add: gameG_def mkGame_def)
qed

text \<open>
  The boost is the finite constant 100000, so the claim as stated fails: a line of
  length 199999 that already has a vehicle outranks a zero-vehicle line of length 1
  and takes the only pooled vehicle.
\<close>

lemma stationsF:
  "stationAt gameF 0 = Some (mkStation 0 0 0 False False)"
  "stationAt gameF (Suc 0) = Some (mkStation 1 1 0 False False)"
  "stationAt gameF 2 = Some ((mkStation 2 200000 0 False False)\<lparr>queue := [mkPassenger 2 1 0]\<rparr>)"
  by (simp_all add: stationAt_def gameF_def mkGame_def)

lemma demandF0: "calculateLineDemand gameF lineF0 = 0"
  by (simp add: calculateLineDemand_def lineF0_def mkLine_def stationsF mkStation_def)

lemma demandF1: "calculateLineDemand gameF lineF1 = 2"
  by (simp add: calculateLineDemand_def passengerDemand_def lineF1_def mkLine_def stationsF mkStation_def mkPassenger_def)

lemma hubF0: "\<not> connectsHub gameF lineF0"
  by (simp add: connectsHub_def isHubStation_def lineF0_def mkLine_def stationsF mkStation_def)

lemma hubF1: "\<not> connectsHub gameF lineF1"
  by (simp add: connectsHub_def isHubStation_def lineF1_def mkLine_def stationsF mkStation_def)

lemma prioF0: "linePriority gameF lineF0 = 100001"
  by (simp add: linePriority_def zeroTrainBoost_def hubPriority_def hubF0 demandF0 or_default_def)
     (simp add: lineF0_def mkLine_def)

lemma prioF1: "linePriority gameF lineF1 = 200099"
  by (simp add: linePriority_def zeroTrainBoost_def hubPriority_def hubF1 demandF1 or_default_def)
     (simp add: lineF1_def mkLine_def)

lemma maxF1: "maxTrains gameF lineF1 = 2"
  by (simp add: maxTrains_def lineF1_def mkLine_def gameF_def mkGame_def)

lemma desiredF1: "desiredTrains gameF lineF1 = 2"
proof -
  have "(1::int) \<le> \<lceil>(199999::real) / 350\<rceil>" by (simp add: le_ceiling_iff)
  then show ?thesis
    by (simp add: desiredTrains_def hubF1 demandF1 maxF1 or_default_def Let_def)
       (simp add: lineF1_def mkLine_def)
qed

lemma deficitF1: "deficit (lineStats gameF lineF1) = 1"
  by (simp add: lineStats_def desiredF1) (simp add: lineF1_def mkLine_def)

lemma deficitF0: "1 \<le> deficit (lineStats gameF lineF0)"
  using desiredTrains_pos [of gameF lineF0] by (simp add: lineStats_def) (simp add: lineF0_def mkLine_def)

lemma linesF: "lines gameF = [lineF0, lineF1]"
  by (simp add: gameF_def mkGame_def)

lemma priority_lineStats: "priority (lineStats g l) = linePriority g l"
  by (simp add: lineStats_def)

lemma sortedF: "sortStats (map (lineStats gameF) (lines gameF)) = [lineStats gameF lineF1, lineStats gameF lineF0]"
  by (simp add: sortStats_def linesF priority_lineStats prioF0 prioF1)

theorem zero_vehicle_line_counterexample:
  "ltrains lineF0 = [] \<and> ltrains lineF1 \<noteq> [] \<and> trainsAvailable gameF = 1 \<and> lines gameF = [lineF0, lineF1] \<and>
   0 < deficit (lineStats gameF lineF0) \<and> 0 < deficit (lineStats gameF lineF1) \<and>
   calculateLineDemand gameF lineF0 < calculateLineDemand gameF lineF1 \<and>
   linePriority gameF lineF0 < linePriority gameF lineF1 \<and>
   optimizeTrainAllocation gameF =
     gameF\<lparr>lines := [lineF0, lineF1\<lparr>ltrains := [0, 1]\<rparr>],
            trains := trains gameF @ [newTrainFor gameF 1], trainsAvailable := 0\<rparr>"
proof -
  have pool: "trainsAvailable gameF = 1" by (simp add: gameF_def mkGame_def)
  have lt: "1 < length (lines gameF)" "2 \<le> length (lstations (lines gameF ! 1))"
    by (simp_all add: gameF_def mkGame_def lineF1_def mkLine_def)
  have ct: "createTrain gameF (statLineId (lineStats gameF lineF1)) =
      (gameF\<lparr>lines := [lineF0, lineF1\<lparr>ltrains := [0, 1]\<rparr>],
             trains := trains gameF @ [newTrainFor gameF 1]\<rparr>, Some (newTrainFor gameF 1))"
    using createTrain_ok [OF lt] by (simp add: lineStats_def) (simp add: gameF_def mkGame_def lineF1_def mkLine_def)
  have d1: "1 \<le> deficit (lineStats gameF lineF1)" by (simp add: deficitF1)
  have "allocate [lineStats gameF lineF1, lineStats gameF lineF0] gameF =
        gameF\<lparr>lines := [lineF0, lineF1\<lparr>ltrains := [0, 1]\<rparr>],
             trains := trains gameF @ [newTrainFor gameF 1]\<rparr>\<lparr>trainsAvailable := 0\<rparr>"
    by (rule allocate_single [OF pool d1 ct]) (simp add: pool)
  then have "optimizeTrainAllocation gameF =
     gameF\<lparr>lines := [lineF0, lineF1\<lparr>ltrains := [0, 1]\<rparr>],
            trains := trains gameF @ [newTrainFor gameF 1], trainsAvailable := 0\<rparr>"
    by (simp add: optimizeTrainAllocation_def pool sortedF)
  moreover have "ltrains lineF0 = []" "ltrains lineF1 \<noteq> []" "lines gameF = [lineF0, lineF1]"
    by (simp_all add: lineF0_def lineF1_def mkLine_def gameF_def mkGame_def)
  moreover have "0 < deficit (lineStats gameF lineF0)" using deficitF0 by simp
  moreover have "0 < deficit (lineStats gameF lineF1)" by (simp add: deficitF1)
  ultimately show ?thesis by (simp add: pool demandF0 demandF1 prioF0 prioF1)
qed

section \<open>Stranded passengers\<close>

lemma hypot_axis: "hypot a 0 = \<bar>a\<bar>"
  by (simp add: hypot_def)

lemma graphS: "buildStationGraph gameS = Inr [[], []]"
  by (simp add: buildStationGraph_def graphEdges_def gameS_def mkGame_def)

lemma sel1: "selectMin [Fin 0, PInf] [False, False] = Some 0"
  by (simp add: selectMin_def selectStep_def upt_rec)

lemma sel2: "selectMin [Fin 0, PInf] [True, False] = None"
  by (simp add: selectMin_def selectStep_def upt_rec)

lemma etasS: "computeETAs gameS 0 = Inr [Some (Fin 0), Some PInf]"
proof -
  have len: "length (stations gameS) = 2" by (simp add: gameS_def mkGame_def)
  have "dijkstraLoop gameS 0 [[], []] [Fin 0, PInf] [False, False] = [Fin 0, PInf]"
    by (subst dijkstraLoop.simps, simp add: sel1, subst dijkstraLoop.simps, simp add: sel2)
  then show ?thesis
    by (simp add: computeETAs_def graphS len numeral_2_eq_2)
qed

lemma dijkstraLoop_cong:
  assumes "\<And>u v eta. relax g' d u v eta = relax g d u v eta"
  shows "dijkstraLoop g' d adj eta vis = dijkstraLoop g d adj eta vis"
  using assms
proof (induction g d adj eta vis rule: dijkstraLoop.induct)
  case (1 g d adj eta vis)
  have r: "relax g' d = relax g d" using "1.prems" by (intro ext) simp
  show ?case
  proof (cases "selectMin eta vis")
    case None
    then show ?thesis by (subst dijkstraLoop.simps, subst (2) dijkstraLoop.simps) simp
  next
    case (Some u)
    have "dijkstraLoop g' d adj (fold (relax g d u) (adj ! u) eta) (vis[u := True]) =
          dijkstraLoop g d adj (fold (relax g d u) (adj ! u) eta) (vis[u := True])"
      using "1.IH" [OF Some] "1.prems" by simp
    then show ?thesis using Some r
      by (subst dijkstraLoop.simps, subst (2) dijkstraLoop.simps) simp
  qed
qed

lemma stationAt_ended: "stationAt (ended b r g) i = stationAt g i"
  by (simp add: stationAt_def ended_def)

lemma relax_ended: "relax (ended b r g) d u v eta = relax g d u v eta"
proof -
  have "effectiveSpeed (ended b r g) = effectiveSpeed g" by (simp add: effectiveSpeed_def ended_def)
  then have "edgeTimeMs (ended b r g) v u = edgeTimeMs g v u"
    by (simp add: edgeTimeMs_def stationAt_ended split: option.splits)
  moreover have "nodeTransferMs (ended b r g) u d = nodeTransferMs g u d"
  proof -
    have c: "cfg (ended b r g) = cfg g" by (simp add: ended_def)
    show ?thesis unfolding nodeTransferMs_def stationAt_ended c by simp
  qed
  ultimately show ?thesis by (simp add: relax_def)
qed

lemma estimateETA_ended: "estimateETA (ended b r g) a d = estimateETA g a d"
proof -
  have "buildStationGraph (ended b r g) = buildStationGraph g"
    by (simp add: buildStationGraph_def graphEdges_def ended_def)
  moreover have "length (stations (ended b r g)) = length (stations g)" by (simp add: ended_def)
  moreover have "\<And>adj eta vis. dijkstraLoop (ended b r g) d adj eta vis = dijkstraLoop g d adj eta vis"
    by (rule dijkstraLoop_cong) (rule relax_ended)
  ultimately have "computeETAs (ended b r g) d = computeETAs g d"
    by (simp add: computeETAs_def Let_def split: sum.splits)
  then show ?thesis by (simp add: estimateETA_def)
qed

lemma canBeServed_ended: "canBeServed (ended b r g) st p = canBeServed g st p"
  by (simp add: canBeServed_def estimateETA_ended)

lemma waits_ended: "maxWaitMs (ended b r g) = maxWaitMs g" "missedWaitMs (ended b r g) = missedWaitMs g"
  by (simp_all add: maxWaitMs_def missedWaitMs_def ended_def)

lemma endGame_ended: "endGame reason (ended b r g) = ended True (Some reason) g"
  by (simp add: endGame_def ended_def)

lemma strandedScan_char:
  assumes "strandedScan st xs (ended b r g, acc) = Inr (g', stranded)"
  shows "stranded = acc @ map fst (filter (\<lambda>ip. isStranded g st (snd ip)) xs) \<and>
         g' = (if \<exists>ip \<in> set xs. isMissed g st (snd ip)
               then ended True (Some (missedReason st)) g else ended b r g)"
  using assms
proof (induction xs arbitrary: b r acc)
  case Nil
  then show ?case by simp
next
  case (Cons ip xs)
  obtain idx p where ip: "ip = (idx, p)" by (cases ip)
  show ?case
  proof (cases "waitTime p > maxWaitMs g")
    case False
    then have "strandedScan st xs (ended b r g, acc) = Inr (g', stranded)"
      using Cons.prems ip by (simp add: waits_ended)
    from Cons.IH [OF this] show ?thesis using False ip by (simp add: isStranded_def isMissed_def)
  next
    case True
    show ?thesis
    proof (cases "canBeServed g st p")
      case (Inl e)
      then show ?thesis using Cons.prems ip True by (simp add: waits_ended canBeServed_ended)
    next
      case (Inr served)
      show ?thesis
      proof (cases served)
        case False
        then have "strandedScan st xs (ended b r g, acc @ [idx]) = Inr (g', stranded)"
          using Cons.prems ip True Inr by (simp add: waits_ended canBeServed_ended)
        from Cons.IH [OF this] show ?thesis
          using True False Inr ip by (simp add: isStranded_def isMissed_def)
      next
        case served: True
        show ?thesis
        proof (cases "waitTime p > missedWaitMs g")
          case False
          then have "strandedScan st xs (ended b r g, acc) = Inr (g', stranded)"
            using Cons.prems ip True Inr served by (simp add: waits_ended canBeServed_ended)
          from Cons.IH [OF this] show ?thesis
            using True False Inr served ip by (simp add: isStranded_def isMissed_def)
        next
          case late: True
          then have "strandedScan st xs (ended True (Some (missedReason st)) g, acc) = Inr (g', stranded)"
            using Cons.prems ip True Inr served
            by (simp add: waits_ended canBeServed_ended endGame_ended)
          from Cons.IH [OF this] show ?thesis
            using True late Inr served ip by (simp add: isStranded_def isMissed_def)
        qed
      qed
    qed
  qed
qed

lemma splice1_append: "j < length q \<Longrightarrow> splice1 j (q @ ys) = splice1 j q @ ys"
  by (simp add: splice1_def)

lemma length_splice1: "j < length q \<Longrightarrow> length (splice1 j q) = length q - 1"
  by (simp add: splice1_def)

lemma fold_splice1_append:
  "sorted_wrt (>) js \<Longrightarrow> \<forall>j \<in> set js. j < length q \<Longrightarrow>
   fold splice1 js (q @ ys) = fold splice1 js q @ ys"
proof (induction js arbitrary: q)
  case Nil
  then show ?case by simp
next
  case (Cons j js)
  have j: "j < length q" using Cons.prems(2) by simp
  have "\<forall>i \<in> set js. i < length (splice1 j q)"
    using Cons.prems j by (auto simp: length_splice1)
  moreover have "sorted_wrt (>) js" using Cons.prems(1) by simp
  ultimately have "fold splice1 js (splice1 j q @ ys) = fold splice1 js (splice1 j q) @ ys"
    by (rule Cons.IH [rotated])
  then show ?case using j by (simp add: splice1_append)
qed

lemma strandedIdx_snoc:
  "strandedIdx P (q @ [x]) = strandedIdx P q @ (if P x then [length q] else [])"
  by (simp add: strandedIdx_def)

lemma strandedIdx_bound: "\<forall>j \<in> set (strandedIdx P q). j < length q"
  by (auto simp: strandedIdx_def dest: set_zip_leftD)

lemma strandedIdx_sorted: "sorted_wrt (<) (strandedIdx P q)"
proof -
  have "map fst (zip [0..<length q] q) = [0..<length q]" by (simp add: map_fst_zip)
  then have "sorted_wrt (<) (map fst (zip [0..<length q] q))" by simp
  then have "sorted_wrt (\<lambda>a b. fst a < fst b) (zip [0..<length q] q)"
    unfolding sorted_wrt_map .
  then have "sorted_wrt (\<lambda>a b. fst a < fst b) (filter (\<lambda>ip. P (snd ip)) (zip [0..<length q] q))"
    by (rule sorted_wrt_filter)
  then show ?thesis by (simp add: strandedIdx_def sorted_wrt_map)
qed

lemma removeStranded_filter:
  "removeStranded (strandedIdx P q) q = filter (\<lambda>p. \<not> P p) q"
proof (induction q rule: rev_induct)
  case Nil
  then show ?case by (simp add: removeStranded_def strandedIdx_def)
next
  case (snoc x q)
  have desc: "sorted_wrt (>) (rev (strandedIdx P q))"
    using strandedIdx_sorted [of P q] by (simp add: sorted_wrt_rev)
  have bnd: "\<forall>j \<in> set (rev (strandedIdx P q)). j < length q"
    using strandedIdx_bound [of P q] by simp
  show ?case
  proof (cases "P x")
    case True
    have "splice1 (length q) (q @ [x]) = q" by (simp add: splice1_def)
    then show ?thesis using True snoc.IH
      by (simp add: removeStranded_def strandedIdx_snoc)
  next
    case False
    have "fold splice1 (rev (strandedIdx P q)) (q @ [x]) = fold splice1 (rev (strandedIdx P q)) q @ [x]"
      by (rule fold_splice1_append [OF desc bnd])
    then show ?thesis using False snoc.IH
      by (simp add: removeStranded_def strandedIdx_snoc)
  qed
qed

lemma strandedBlock_char:
  assumes st: "stationAt g slot = Some st" and run: "strandedBlock g slot = Inr g'"
  shows "stationAt g' slot = Some (st\<lparr>queue := filter (\<lambda>p. \<not> isStranded g st p) (queue st)\<rparr>) \<and>
         (gameOver g' \<longleftrightarrow> gameOver g \<or> (\<exists>p \<in> set (queue st). isMissed g st p)) \<and>
         ((\<exists>p \<in> set (queue st). isMissed g st p) \<longrightarrow> gameOverReason g' = Some (missedReason st))"
proof -
  have g: "g = ended (gameOver g) (gameOverReason g) g" by (simp add: ended_def)
  from run st obtain g1 stranded where
    scan: "strandedScan st (zip [0..<length (queue st)] (queue st)) (g, []) = Inr (g1, stranded)"
    and g': "g' = g1\<lparr>stations := (stations g1)
                   [slot := Some (st\<lparr>queue := removeStranded stranded (queue st)\<rparr>)]\<rparr>"
    by (auto simp: strandedBlock_def split: sum.splits prod.splits)
  from scan have "strandedScan st (zip [0..<length (queue st)] (queue st))
        (ended (gameOver g) (gameOverReason g) g, []) = Inr (g1, stranded)"
    using g by simp
  from strandedScan_char [OF this]
  have s: "stranded = strandedIdx (isStranded g st) (queue st)"
    and g1: "g1 = (if \<exists>ip \<in> set (zip [0..<length (queue st)] (queue st)). isMissed g st (snd ip)
                  then ended True (Some (missedReason st)) g else g)"
    using g by (simp_all add: strandedIdx_def)
  have ex: "(\<exists>ip \<in> set (zip [0..<length (queue st)] (queue st)). isMissed g st (snd ip)) \<longleftrightarrow>
            (\<exists>p \<in> set (queue st). isMissed g st p)"
  proof
    assume "\<exists>ip \<in> set (zip [0..<length (queue st)] (queue st)). isMissed g st (snd ip)"
    then show "\<exists>p \<in> set (queue st). isMissed g st p"
      by (auto dest: set_zip_rightD)
  next
    assume "\<exists>p \<in> set (queue st). isMissed g st p"
    then obtain p where p: "p \<in> set (queue st)" "isMissed g st p" by blast
    then obtain i where "i < length (queue st)" "queue st ! i = p" by (auto simp: in_set_conv_nth)
    then have "(i, p) \<in> set (zip [0..<length (queue st)] (queue st))"
      by (auto simp: in_set_zip intro!: exI [of _ i])
    then show "\<exists>ip \<in> set (zip [0..<length (queue st)] (queue st)). isMissed g st (snd ip)"
      using p(2) by force
  qed
  have slot: "slot < length (stations g)" using st by (simp add: stationAt_def split: if_splits)
  have sts: "stations g1 = stations g" using g1 by (simp add: ended_def)
  have "stationAt g' slot = Some (st\<lparr>queue := filter (\<lambda>p. \<not> isStranded g st p) (queue st)\<rparr>)"
    using slot sts by (simp add: g' stationAt_def s removeStranded_filter)
  moreover have "gameOver g' \<longleftrightarrow> gameOver g \<or> (\<exists>p \<in> set (queue st). isMissed g st p)"
    using g1 ex by (simp add: g' ended_def)
  moreover have "(\<exists>p \<in> set (queue st). isMissed g st p) \<longrightarrow> gameOverReason g' = Some (missedReason st)"
    using g1 ex by (simp add: g' ended_def)
  ultimately show ?thesis by blast
qed

lemma strandedScan_defined:
  assumes "strandedScan st xs (ended b r g, acc) = Inr res"
  shows "\<forall>ip \<in> set xs. waitTime (snd ip) > maxWaitMs g \<longrightarrow> (\<exists>v. canBeServed g st (snd ip) = Inr v)"
  using assms
proof (induction xs arbitrary: b r acc)
  case Nil
  then show ?case by simp
next
  case (Cons ip xs)
  obtain idx p where ip: "ip = (idx, p)" by (cases ip)
  show ?case
  proof (cases "waitTime p > maxWaitMs g")
    case False
    then have "strandedScan st xs (ended b r g, acc) = Inr res"
      using Cons.prems ip by (simp add: waits_ended)
    from Cons.IH [OF this] show ?thesis using False ip by simp
  next
    case True
    then obtain v where v: "canBeServed g st p = Inr v"
      using Cons.prems ip by (cases "canBeServed g st p") (simp_all add: waits_ended canBeServed_ended)
    have "strandedScan st xs (ended b r g, acc @ [idx]) = Inr res \<or>
          strandedScan st xs (ended True (Some (missedReason st)) g, acc) = Inr res \<or>
          strandedScan st xs (ended b r g, acc) = Inr res"
      using Cons.prems ip True v
      by (cases v; cases "waitTime p > missedWaitMs g")
         (simp_all add: waits_ended canBeServed_ended endGame_ended)
    then have "\<exists>b' r' acc'. strandedScan st xs (ended b' r' g, acc') = Inr res" by blast
    then obtain b' r' acc' where "strandedScan st xs (ended b' r' g, acc') = Inr res" by blast
    from Cons.IH [OF this] show ?thesis using ip v by simp
  qed
qed

lemma canBeServed_True:
  "canBeServed g st p = Inr True \<longleftrightarrow> connections st \<noteq> [] \<and> hasFiniteETA g (sid st) (destStation p)"
  by (auto simp: canBeServed_def hasFiniteETA_def split: sum.splits)

lemma canBeServed_False:
  "canBeServed g st p = Inr False \<Longrightarrow> connections st = [] \<or> \<not> hasFiniteETA g (sid st) (destStation p)"
  by (auto simp: canBeServed_def hasFiniteETA_def split: sum.splits if_splits)

lemma strandedBlock_spec:
  assumes st: "stationAt g slot = Some st"
    and run: "strandedBlock g slot = Inr g'"
    and p: "p \<in> set (queue st)"
  shows
    "(waitTime p > maxWaitMs g \<and> \<not> hasFiniteETA g (sid st) (destStation p) \<longrightarrow>
        (\<exists>st'. stationAt g' slot = Some st' \<and> p \<notin> set (queue st') \<and>
               length (queue st') < length (queue st))) \<and>
     (gameOver g' \<longrightarrow> gameOver g \<or>
        (\<exists>q \<in> set (queue st). hasFiniteETA g (sid st) (destStation q) \<and>
            waitTime q > maxWaitMs g \<and> waitTime q > missedWaitMs g)) \<and>
     (connections st \<noteq> [] \<and> hasFiniteETA g (sid st) (destStation p) \<longrightarrow>
        (\<exists>st'. stationAt g' slot = Some st' \<and> p \<in> set (queue st')) \<and>
        (waitTime p > maxWaitMs g \<and> waitTime p > missedWaitMs g \<longrightarrow>
           gameOver g' \<and> gameOverReason g' = Some (missedReason st)))"
proof -
  let ?q' = "filter (\<lambda>p. \<not> isStranded g st p) (queue st)"
  note ch = strandedBlock_char [OF st run]
  have q': "stationAt g' slot = Some (st\<lparr>queue := ?q'\<rparr>)"
    by (rule ch [THEN conjunct1])
  have over: "gameOver g' \<longleftrightarrow> gameOver g \<or> (\<exists>p \<in> set (queue st). isMissed g st p)"
    by (rule ch [THEN conjunct2, THEN conjunct1])
  have reason: "(\<exists>p \<in> set (queue st). isMissed g st p) \<longrightarrow> gameOverReason g' = Some (missedReason st)"
    by (rule ch [THEN conjunct2, THEN conjunct2])
  have defined: "waitTime p > maxWaitMs g \<Longrightarrow> \<exists>v. canBeServed g st p = Inr v"
  proof -
    assume w: "waitTime p > maxWaitMs g"
    from run st obtain res where
      scan: "strandedScan st (zip [0..<length (queue st)] (queue st)) (g, []) = Inr res"
      by (auto simp: strandedBlock_def split: sum.splits)
    have g: "g = ended (gameOver g) (gameOverReason g) g" by (simp add: ended_def)
    from scan have "strandedScan st (zip [0..<length (queue st)] (queue st))
        (ended (gameOver g) (gameOverReason g) g, []) = Inr res" using g by simp
    from strandedScan_defined [OF this]
    have all: "\<forall>ip \<in> set (zip [0..<length (queue st)] (queue st)).
             waitTime (snd ip) > maxWaitMs g \<longrightarrow> (\<exists>v. canBeServed g st (snd ip) = Inr v)" .
    obtain i where "i < length (queue st)" "queue st ! i = p" using p by (auto simp: in_set_conv_nth)
    then have "(i, p) \<in> set (zip [0..<length (queue st)] (queue st))"
      by (auto simp: in_set_zip intro!: exI [of _ i])
    from bspec [OF all this] w show ?thesis by simp
  qed
  have a: "waitTime p > maxWaitMs g \<and> \<not> hasFiniteETA g (sid st) (destStation p) \<longrightarrow>
        (\<exists>st'. stationAt g' slot = Some st' \<and> p \<notin> set (queue st') \<and>
               length (queue st') < length (queue st))"
  proof
    assume h: "waitTime p > maxWaitMs g \<and> \<not> hasFiniteETA g (sid st) (destStation p)"
    then obtain v where v: "canBeServed g st p = Inr v" using defined by blast
    have "\<not> v"
    proof
      assume v
      then have "canBeServed g st p = Inr True" using v by simp
      then have "hasFiniteETA g (sid st) (destStation p)" by (simp add: canBeServed_True)
      then show False using h by simp
    qed
    then have s: "isStranded g st p" using v h by (simp add: isStranded_def)
    then have "p \<notin> set ?q'" by simp
    moreover have "length ?q' < length (queue st)"
    proof (rule length_filter_less [OF p])
      show "\<not> \<not> isStranded g st p" using s by simp
    qed
    ultimately show "\<exists>st'. stationAt g' slot = Some st' \<and> p \<notin> set (queue st') \<and>
               length (queue st') < length (queue st)"
      using q' by simp
  qed
  have b: "gameOver g' \<longrightarrow> gameOver g \<or>
        (\<exists>q \<in> set (queue st). hasFiniteETA g (sid st) (destStation q) \<and>
            waitTime q > maxWaitMs g \<and> waitTime q > missedWaitMs g)"
  proof
    assume "gameOver g'"
    then have "gameOver g \<or> (\<exists>p \<in> set (queue st). isMissed g st p)" using over by simp
    then show "gameOver g \<or>
        (\<exists>q \<in> set (queue st). hasFiniteETA g (sid st) (destStation q) \<and>
            waitTime q > maxWaitMs g \<and> waitTime q > missedWaitMs g)"
    proof
      assume "gameOver g" then show ?thesis ..
    next
      assume "\<exists>p \<in> set (queue st). isMissed g st p"
      then obtain q where q: "q \<in> set (queue st)" "isMissed g st q" ..
      then have "hasFiniteETA g (sid st) (destStation q) \<and>
            waitTime q > maxWaitMs g \<and> waitTime q > missedWaitMs g"
        using canBeServed_True [of g st q] by (simp add: isMissed_def)
      then show ?thesis using q(1) by blast
    qed
  qed
  have c: "connections st \<noteq> [] \<and> hasFiniteETA g (sid st) (destStation p) \<longrightarrow>
        (\<exists>st'. stationAt g' slot = Some st' \<and> p \<in> set (queue st')) \<and>
        (waitTime p > maxWaitMs g \<and> waitTime p > missedWaitMs g \<longrightarrow>
           gameOver g' \<and> gameOverReason g' = Some (missedReason st))"
  proof
    assume h: "connections st \<noteq> [] \<and> hasFiniteETA g (sid st) (destStation p)"
    then have t: "canBeServed g st p = Inr True" by (simp add: canBeServed_True)
    then have "\<not> isStranded g st p" by (simp add: isStranded_def)
    then have "p \<in> set ?q'" using p by simp
    then have 1: "\<exists>st'. stationAt g' slot = Some st' \<and> p \<in> set (queue st')" using q' by simp
    have 2: "waitTime p > maxWaitMs g \<and> waitTime p > missedWaitMs g \<longrightarrow>
           gameOver g' \<and> gameOverReason g' = Some (missedReason st)"
    proof
      assume "waitTime p > maxWaitMs g \<and> waitTime p > missedWaitMs g"
      then have "isMissed g st p" using t by (simp add: isMissed_def)
      then have "\<exists>p \<in> set (queue st). isMissed g st p" using p by blast
      then show "gameOver g' \<and> gameOverReason g' = Some (missedReason st)"
        using over reason by blast
    qed
    show "(\<exists>st'. stationAt g' slot = Some st' \<and> p \<in> set (queue st')) \<and>
        (waitTime p > maxWaitMs g \<and> waitTime p > missedWaitMs g \<longrightarrow>
           gameOver g' \<and> gameOverReason g' = Some (missedReason st))"
      by (rule conjI [OF 1 2])
  qed
  show ?thesis by (rule conjI [OF a conjI [OF b c]])
qed


subsection \<open>The network does not change during a sweep\<close>

lemma sameStation_refl: "sameStation s s"
  by (simp add: sameStation_def)

lemma sameStation_trans: "sameStation a b \<Longrightarrow> sameStation b c \<Longrightarrow> sameStation a c"
  by (simp add: sameStation_def)

lemma sameNet_refl: "sameNet g g"
  by (simp add: sameNet_def list_all2_refl option.rel_refl sameStation_refl)

lemma sameNet_trans:
  assumes "sameNet a b" "sameNet b c"
  shows "sameNet a c"
proof -
  have "list_all2 (rel_option sameStation) (stations a) (stations c)"
  proof (rule list_all2_trans [of _ _ "rel_option sameStation"])
    show "list_all2 (rel_option sameStation) (stations a) (stations b)"
      using assms(1) by (simp add: sameNet_def)
    show "list_all2 (rel_option sameStation) (stations b) (stations c)"
      using assms(2) by (simp add: sameNet_def)
    show "rel_option sameStation x z"
      if "rel_option sameStation x y" "rel_option sameStation y z" for x y z
      using that by (cases x; cases y; cases z) (auto intro: sameStation_trans)
  qed
  then show ?thesis using assms by (simp add: sameNet_def)
qed

lemma sameNet_stationAt:
  assumes "sameNet g g'"
  shows "rel_option sameStation (stationAt g i) (stationAt g' i)"
proof -
  have l: "list_all2 (rel_option sameStation) (stations g) (stations g')"
    using assms by (simp add: sameNet_def)
  then have len: "length (stations g') = length (stations g)" by (simp add: list_all2_lengthD)
  show ?thesis
  proof (cases "i < length (stations g)")
    case True
    then show ?thesis using list_all2_nthD [OF l True] len by (simp add: stationAt_def)
  next
    case False
    then show ?thesis using len by (simp add: stationAt_def)
  qed
qed

lemma sameNet_length: "sameNet g g' \<Longrightarrow> length (stations g') = length (stations g)"
  by (auto simp: sameNet_def dest: list_all2_lengthD)

lemma sameNet_putStation:
  assumes "stationAt g i = Some s" "sameStation s s'"
  shows "sameNet g (putStation i s' g)"
proof -
  have i: "i < length (stations g)" and nth: "stations g ! i = Some s"
    using assms(1) by (auto simp: stationAt_def split: if_splits)
  have rr: "rel_option sameStation x x" for x by (cases x) (simp_all add: sameStation_refl)
  have "list_all2 (rel_option sameStation) (stations g) ((stations g)[i := Some s'])"
    unfolding list_all2_conv_all_nth
    using i nth assms(2) by (auto simp: nth_list_update rr)
  then show ?thesis by (simp add: sameNet_def putStation_def)
qed

lemma sameNet_ended: "sameNet g (ended b r g)"
  by (simp add: sameNet_def ended_def list_all2_refl option.rel_refl sameStation_refl)

lemma stationAt_putStation:
  "i < length (stations g) \<Longrightarrow> stationAt (putStation i s g) j = (if j = i then Some s else stationAt g j)"
  by (simp add: stationAt_def putStation_def)

lemma relax_sameNet:
  assumes "sameNet g g'"
  shows "relax g' d u v eta = relax g d u v eta"
proof -
  have c: "cfg g' = cfg g" using assms by (simp add: sameNet_def)
  have sp: "effectiveSpeed g' = effectiveSpeed g" by (simp add: effectiveSpeed_def c)
  have e: "edgeTimeMs g' a b = edgeTimeMs g a b" for a b
    using sameNet_stationAt [OF assms, of a] sameNet_stationAt [OF assms, of b]
    by (cases "stationAt g a"; cases "stationAt g' a"; cases "stationAt g b"; cases "stationAt g' b")
       (simp_all add: edgeTimeMs_def sp sameStation_def)
  have t: "nodeTransferMs g' a d = nodeTransferMs g a d" for a
    using sameNet_stationAt [OF assms, of a]
    by (cases "stationAt g a"; cases "stationAt g' a")
       (simp_all add: nodeTransferMs_def c sameStation_def interchangeFactor_def)
  show ?thesis by (simp add: relax_def e t)
qed

lemma estimateETA_sameNet:
  assumes "sameNet g g'"
  shows "estimateETA g' a d = estimateETA g a d"
proof -
  have len: "length (stations g') = length (stations g)" by (rule sameNet_length [OF assms])
  have "graphEdges g' = graphEdges g" using assms by (simp add: graphEdges_def sameNet_def)
  then have "buildStationGraph g' = buildStationGraph g" by (simp add: buildStationGraph_def len)
  moreover have "\<And>adj eta vis. dijkstraLoop g' d adj eta vis = dijkstraLoop g d adj eta vis"
    by (rule dijkstraLoop_cong) (rule relax_sameNet [OF assms])
  ultimately have "computeETAs g' d = computeETAs g d"
    by (simp add: computeETAs_def Let_def len split: sum.splits)
  then show ?thesis by (simp add: estimateETA_def)
qed

lemma hasFiniteETA_sameNet: "sameNet g g' \<Longrightarrow> hasFiniteETA g' a d = hasFiniteETA g a d"
  by (simp add: hasFiniteETA_def estimateETA_sameNet)

lemma waits_sameNet:
  assumes "sameNet g g'"
  shows "maxWaitMs g' = maxWaitMs g" "missedWaitMs g' = missedWaitMs g"
  using assms by (simp_all add: maxWaitMs_def missedWaitMs_def sameNet_def)

subsection \<open>What the relief and the capacity check leave of a queue\<close>

text \<open>
  \<open>keeps g slot st g1\<close>: from \<open>g\<close> to \<open>g1\<close> the network and the game-over state are
  unchanged and the queue of the station in \<open>slot\<close>, which was \<open>st\<close>, has only lost
  passengers.
\<close>

lemma moveOne_keeps:
  assumes st: "stationAt g slot = Some st" and run: "moveOne rnd alts slot idx (g, k) = Inr (g1, k1)"
    and alts: "slot \<notin> set alts"
  shows "sameNet g g1 \<and> gameOver g1 = gameOver g \<and> gameOverReason g1 = gameOverReason g \<and>
         (\<exists>st1. stationAt g1 slot = Some st1 \<and> sameStation st st1 \<and>
                set (queue st1) \<subseteq> set (queue st) \<and> length (queue st1) \<le> length (queue st))"
proof -
  from run obtain a where a: "pick alts (rnd k) = Some a"
    by (auto simp: moveOne_def Let_def split: option.splits)
  have ne: "a \<noteq> slot" using pick_mem [OF a] alts by auto
  from run a st obtain alt where alt: "stationAt g a = Some alt"
    by (auto simp: moveOne_def Let_def split: option.splits)
  have slot: "slot < length (stations g)" using st by (simp add: stationAt_def split: if_splits)
  show ?thesis
  proof (cases "idx < length (queue st)")
    case False
    then have "g1 = g" using run a st alt by (simp add: moveOne_def Let_def)
    then show ?thesis using st by (auto simp: sameNet_refl sameStation_refl)
  next
    case True
    let ?st1 = "st\<lparr>queue := splice1 idx (queue st)\<rparr>"
    let ?ga = "putStation slot ?st1 g"
    obtain moved where g1: "g1 = putStation a (alt\<lparr>queue := queue alt @ [moved]\<rparr>) ?ga"
      using run a st alt True by (auto simp: moveOne_def Let_def)
    have n1: "sameNet g ?ga" by (rule sameNet_putStation [OF st]) (simp add: sameStation_def)
    have alt': "stationAt ?ga a = Some alt" using alt ne slot by (simp add: stationAt_putStation)
    have n2: "sameNet ?ga g1" unfolding g1
      by (rule sameNet_putStation [OF alt']) (simp add: sameStation_def)
    have a_len: "a < length (stations ?ga)"
      using alt by (simp add: stationAt_def putStation_def split: if_splits)
    have s1: "stationAt g1 slot = Some ?st1"
      unfolding g1 using a_len ne slot by (simp add: stationAt_putStation)
    have sub: "set (splice1 idx (queue st)) \<subseteq> set (queue st)"
      by (auto simp: splice1_def dest: in_set_takeD in_set_dropD)
    have len: "length (splice1 idx (queue st)) \<le> length (queue st)"
      using True by (simp add: splice1_def)
    have go: "gameOver g1 = gameOver g" "gameOverReason g1 = gameOverReason g"
      by (simp_all add: g1 putStation_def)
    show ?thesis using sameNet_trans [OF n1 n2] go s1 sub len
      by (auto simp: sameStation_def)
  qed
qed

lemma moveAll_keeps:
  assumes "stationAt g slot = Some st" "moveAll rnd alts slot is j (g, k) = Inr (g1, k1)"
    "slot \<notin> set alts"
  shows "sameNet g g1 \<and> gameOver g1 = gameOver g \<and> gameOverReason g1 = gameOverReason g \<and>
         (\<exists>st1. stationAt g1 slot = Some st1 \<and> sameStation st st1 \<and>
                set (queue st1) \<subseteq> set (queue st) \<and> length (queue st1) \<le> length (queue st))"
  using assms
proof (induction "is" arbitrary: j g k st)
  case Nil
  then show ?case by (auto simp: sameNet_refl sameStation_refl)
next
  case (Cons i "is")
  from Cons.prems(2) obtain ga ka where
    one: "moveOne rnd alts slot (i - j) (g, k) = Inr (ga, ka)"
    and rest: "moveAll rnd alts slot is (Suc j) (ga, ka) = Inr (g1, k1)"
    by (auto split: sum.splits)
  from moveOne_keeps [OF Cons.prems(1) one Cons.prems(3)] obtain sta where
    a: "sameNet g ga" "gameOver ga = gameOver g" "gameOverReason ga = gameOverReason g"
       "stationAt ga slot = Some sta" "sameStation st sta"
       "set (queue sta) \<subseteq> set (queue st)" "length (queue sta) \<le> length (queue st)"
    by blast
  from Cons.IH [OF a(4) rest Cons.prems(3)] obtain st1 where
    b: "sameNet ga g1" "gameOver g1 = gameOver ga" "gameOverReason g1 = gameOverReason ga"
       "stationAt g1 slot = Some st1" "sameStation sta st1"
       "set (queue st1) \<subseteq> set (queue sta)" "length (queue st1) \<le> length (queue sta)"
    by blast
  have "sameNet g g1" by (rule sameNet_trans [OF a(1) b(1)])
  moreover have "sameStation st st1" by (rule sameStation_trans [OF a(5) b(5)])
  moreover have "set (queue st1) \<subseteq> set (queue st)" using a(6) b(6) by blast
  moreover have "length (queue st1) \<le> length (queue st)" using a(7) b(7) by simp
  ultimately show ?case using a(2,3) b(2,3,4) by auto
qed

lemma expressDelivery_keeps:
  assumes "stationAt g slot = Some st"
  shows "sameNet g (expressDelivery severe slot g) \<and>
         gameOver (expressDelivery severe slot g) = gameOver g \<and>
         gameOverReason (expressDelivery severe slot g) = gameOverReason g \<and>
         (\<exists>st1. stationAt (expressDelivery severe slot g) slot = Some st1 \<and> sameStation st st1 \<and>
                set (queue st1) \<subseteq> set (queue st) \<and> length (queue st1) \<le> length (queue st))"
proof (cases "isFinal st \<and> severe")
  case False
  then have "expressDelivery severe slot g = g" using assms by (auto simp: expressDelivery_def)
  then show ?thesis using assms by (auto simp: sameNet_refl sameStation_refl)
next
  case True
  let ?st1 = "st\<lparr>queue := filter (\<lambda>p. destStation p \<noteq> sid st) (queue st)\<rparr>"
  have e: "expressDelivery severe slot g = putStation slot ?st1 g"
    using True assms by (simp add: expressDelivery_def)
  have slot: "slot < length (stations g)" using assms by (simp add: stationAt_def split: if_splits)
  have "sameNet g (putStation slot ?st1 g)"
    by (rule sameNet_putStation [OF assms]) (simp add: sameStation_def)
  moreover have "stationAt (putStation slot ?st1 g) slot = Some ?st1"
    using slot by (simp add: stationAt_putStation)
  ultimately show ?thesis unfolding e by (auto simp: putStation_def sameStation_def)
qed

lemma alternativeSlots_other: "alternativeSlots g slot = Inr alts \<Longrightarrow> slot \<notin> set alts"
  by (auto simp: alternativeSlots_def split: if_splits)

lemma relief_keeps:
  assumes st: "stationAt g slot = Some st"
    and run: "handleEmergencyOvercrowding rnd slot (g, k) = Inr (g1, k1)"
  shows "sameNet g g1 \<and> gameOver g1 = gameOver g \<and> gameOverReason g1 = gameOverReason g \<and>
         (\<exists>st1. stationAt g1 slot = Some st1 \<and> sameStation st st1 \<and>
                set (queue st1) \<subseteq> set (queue st) \<and> length (queue st1) \<le> length (queue st))"
proof -
  let ?severe = "length (queue st) \<ge> 12"
  let ?moves = "length (stuckIdx g st) \<ge> 2 \<or> (?severe \<and> length (queue st) > 14)"
  have same: ?thesis if "g1 = g" using that st by (auto simp: sameNet_refl sameStation_refl)
  show ?thesis
  proof (cases "queue st = [] \<or> \<not> (stuckIdx g st \<noteq> [] \<or> ?severe)")
    case True
    then have "g1 = g" using run st
      by (auto simp: handleEmergencyOvercrowding_def Let_def split: if_splits)
    then show ?thesis by (rule same)
  next
    case False
    then obtain ga ka where
      mv: "(if ?moves then
              (case alternativeSlots g slot of
                 Inl e \<Rightarrow> Inl e
               | Inr alts \<Rightarrow>
                   (if alts \<noteq> [] then moveAll rnd alts slot (passengersToMove g st) 0 (g, k)
                    else Inr (g, k)))
            else Inr (g, k)) = Inr (ga, ka)"
      and g1: "g1 = expressDelivery ?severe slot ga"
      using run st
      by (auto simp: handleEmergencyOvercrowding_def Let_def split: sum.splits if_splits)
    have a: "sameNet g ga \<and> gameOver ga = gameOver g \<and> gameOverReason ga = gameOverReason g \<and>
         (\<exists>sta. stationAt ga slot = Some sta \<and> sameStation st sta \<and>
                set (queue sta) \<subseteq> set (queue st) \<and> length (queue sta) \<le> length (queue st))"
    proof (cases ?moves)
      case False
      then have "ga = g" using mv by (auto split: if_splits)
      then show ?thesis using st by (auto simp: sameNet_refl sameStation_refl)
    next
      case True
      then obtain alts where alts: "alternativeSlots g slot = Inr alts"
        and r: "(if alts \<noteq> [] then moveAll rnd alts slot (passengersToMove g st) 0 (g, k)
                 else Inr (g, k)) = Inr (ga, ka)"
        using mv by (auto split: sum.splits)
      show ?thesis
      proof (cases "alts = []")
        case True
        then have "ga = g" using r by simp
        then show ?thesis using st by (auto simp: sameNet_refl sameStation_refl)
      next
        case False
        then have "moveAll rnd alts slot (passengersToMove g st) 0 (g, k) = Inr (ga, ka)"
          using r by simp
        from moveAll_keeps [OF st this alternativeSlots_other [OF alts]] show ?thesis .
      qed
    qed
    then obtain sta where
      a': "sameNet g ga" "gameOver ga = gameOver g" "gameOverReason ga = gameOverReason g"
         "stationAt ga slot = Some sta" "sameStation st sta"
         "set (queue sta) \<subseteq> set (queue st)" "length (queue sta) \<le> length (queue st)"
      by blast
    from expressDelivery_keeps [OF a'(4), of ?severe] obtain st1 where
      b: "sameNet ga g1" "gameOver g1 = gameOver ga" "gameOverReason g1 = gameOverReason ga"
         "stationAt g1 slot = Some st1" "sameStation sta st1"
         "set (queue st1) \<subseteq> set (queue sta)" "length (queue st1) \<le> length (queue sta)"
      unfolding g1 by blast
    have "sameNet g g1" by (rule sameNet_trans [OF a'(1) b(1)])
    moreover have "sameStation st st1" by (rule sameStation_trans [OF a'(5) b(5)])
    moreover have "set (queue st1) \<subseteq> set (queue st)" using a'(6) b(6) by blast
    moreover have "length (queue st1) \<le> length (queue st)" using a'(7) b(7) by simp
    ultimately show ?thesis using a'(2,3) b(2,3,4) by auto
  qed
qed

lemma refreshWaits_keeps:
  assumes "stationAt g slot = Some st"
  shows "sameNet g (refreshWaits g slot)"
    "gameOver (refreshWaits g slot) = gameOver g"
    "gameOverReason (refreshWaits g slot) = gameOverReason g"
    "stationAt (refreshWaits g slot) slot =
       Some (st\<lparr>queue := map (\<lambda>p. p\<lparr>waitTime := gameTime g - spawnTime p\<rparr>) (queue st)\<rparr>)"
proof -
  let ?st = "st\<lparr>queue := map (\<lambda>p. p\<lparr>waitTime := gameTime g - spawnTime p\<rparr>) (queue st)\<rparr>"
  have r: "refreshWaits g slot = putStation slot ?st g" using assms by (simp add: refreshWaits_def)
  have slot: "slot < length (stations g)" using assms by (simp add: stationAt_def split: if_splits)
  show "sameNet g (refreshWaits g slot)"
    unfolding r by (rule sameNet_putStation [OF assms]) (simp add: sameStation_def)
  show "gameOver (refreshWaits g slot) = gameOver g"
    "gameOverReason (refreshWaits g slot) = gameOverReason g"
    by (simp_all add: r putStation_def)
  show "stationAt (refreshWaits g slot) slot = Some ?st"
    unfolding r using slot by (simp add: stationAt_putStation)
qed

lemma capacityCheck_keeps:
  assumes "stationAt g slot = Some st" "capacityCheck dt slot g = (g2, False)"
  shows "sameNet g g2 \<and> gameOver g2 = gameOver g \<and> gameOverReason g2 = gameOverReason g \<and>
         (\<exists>st2. stationAt g2 slot = Some st2 \<and> sameStation st st2 \<and> queue st2 = queue st)"
proof -
  have slot: "slot < length (stations g)" using assms(1) by (simp add: stationAt_def split: if_splits)
  from assms obtain st2 where g2: "g2 = putStation slot st2 g" and q: "queue st2 = queue st"
    and s: "sameStation st st2"
    by (auto simp: capacityCheck_def Let_def sameStation_def split: if_splits)
  have "sameNet g g2" unfolding g2 by (rule sameNet_putStation [OF assms(1) s])
  moreover have "stationAt g2 slot = Some st2" unfolding g2 using slot by (simp add: stationAt_putStation)
  ultimately show ?thesis using q s by (auto simp: g2 putStation_def)
qed

text \<open>
  Claim C5, as amended. In every run of the sweep, at every station it visits: let
  \<open>st1\<close> be the station once its wait times are refreshed and the emergency relief
  has acted (it may have moved up to two passengers to other stations and delivered
  passengers at an overcrowded final station), and suppose the capacity check does
  not end the game and the sweep there. Every passenger \<open>p\<close> then queued has
  \<open>waitTime = gameTime - spawnTime\<close>. If \<open>p\<close> has waited longer than the maximum and no
  finite ETA to its destination exists, \<open>p\<close> is removed and the queue is shorter
  after the visit than before it. The simulation is over after the visit only if it
  was over before or some queued passenger with a finite ETA has waited past both
  limits, so a passenger without a finite ETA never ends it. And if the station has
  at least one connected line and \<open>p\<close> has a finite ETA, \<open>p\<close> stays in the queue, and
  once its wait exceeds the maximum and the maximum times the missed-connection
  multiplier the simulation ends with the missed-connection reason.
\<close>

theorem stranded_sweep:
  assumes st: "stationAt g slot = Some st"
    and relief: "handleEmergencyOvercrowding rnd slot (refreshWaits g slot, k) = Inr (g1, k1)"
    and st1: "stationAt g1 slot = Some st1"
    and run: "sweepStation rnd dt slot (g, k) = Inr ((g', k'), False)"
    and p: "p \<in> set (queue st1)"
  shows
    "waitTime p = gameTime g - spawnTime p \<and>
     (waitTime p > maxWaitMs g \<and> \<not> hasFiniteETA g (sid st) (destStation p) \<longrightarrow>
        (\<exists>st'. stationAt g' slot = Some st' \<and> p \<notin> set (queue st') \<and>
               length (queue st') < length (queue st))) \<and>
     (gameOver g' \<longrightarrow> gameOver g \<or>
        (\<exists>q \<in> set (queue st1). hasFiniteETA g (sid st) (destStation q) \<and>
            waitTime q > maxWaitMs g \<and> waitTime q > missedWaitMs g)) \<and>
     (connections st \<noteq> [] \<and> hasFiniteETA g (sid st) (destStation p) \<longrightarrow>
        (\<exists>st'. stationAt g' slot = Some st' \<and> p \<in> set (queue st')) \<and>
        (waitTime p > maxWaitMs g \<and> waitTime p > missedWaitMs g \<longrightarrow>
           gameOver g' \<and> gameOverReason g' = Some (missedReason st)))"
proof -
  let ?g0 = "refreshWaits g slot"
  let ?st0 = "st\<lparr>queue := map (\<lambda>p. p\<lparr>waitTime := gameTime g - spawnTime p\<rparr>) (queue st)\<rparr>"
  note r0 = refreshWaits_keeps [OF st]
  from relief_keeps [OF r0(4) relief] st1 have
    r1: "sameNet ?g0 g1" "gameOver g1 = gameOver ?g0" "gameOverReason g1 = gameOverReason ?g0"
        "sameStation ?st0 st1" "set (queue st1) \<subseteq> set (queue ?st0)"
        "length (queue st1) \<le> length (queue ?st0)"
    by auto
  from run st relief obtain g2 where
    cap: "capacityCheck dt slot g1 = (g2, False)" and blk: "strandedBlock g2 slot = Inr g'"
    by (auto simp: sweepStation_def split: sum.splits prod.splits bool.splits)
  from capacityCheck_keeps [OF st1 cap] obtain st2 where
    r2: "sameNet g1 g2" "gameOver g2 = gameOver g1" "gameOverReason g2 = gameOverReason g1"
        "stationAt g2 slot = Some st2" "sameStation st1 st2" "queue st2 = queue st1"
    by blast
  have net: "sameNet g g2" by (rule sameNet_trans [OF sameNet_trans [OF r0(1) r1(1)] r2(1)])
  have sst: "sameStation st st2"
    using r1(4) r2(5) by (simp add: sameStation_def)
  have ids: "sid st2 = sid st" "connections st2 = connections st" "sname st2 = sname st"
    using sst by (simp_all add: sameStation_def)
  have fin: "hasFiniteETA g2 a d = hasFiniteETA g a d" for a d by (rule hasFiniteETA_sameNet [OF net])
  note w = waits_sameNet [OF net]
  have go: "gameOver g2 = gameOver g" using r0(2) r1(2) r2(2) by simp
  have p2: "p \<in> set (queue st2)" using p r2(6) by simp
  have len: "length (queue st2) \<le> length (queue st)" using r1(6) r2(6) by simp
  have refreshed: "waitTime p = gameTime g - spawnTime p"
  proof -
    have "p \<in> set (queue ?st0)" using p r1(5) by blast
    then show ?thesis by auto
  qed
  have mr: "missedReason st2 = missedReason st" by (simp add: missedReason_def ids)
  from strandedBlock_spec [OF r2(4) blk p2]
  have A: "waitTime p > maxWaitMs g \<and> \<not> hasFiniteETA g (sid st) (destStation p) \<longrightarrow>
        (\<exists>st'. stationAt g' slot = Some st' \<and> p \<notin> set (queue st') \<and>
               length (queue st') < length (queue st2))"
    and B: "gameOver g' \<longrightarrow> gameOver g \<or>
        (\<exists>q \<in> set (queue st1). hasFiniteETA g (sid st) (destStation q) \<and>
            waitTime q > maxWaitMs g \<and> waitTime q > missedWaitMs g)"
    and C: "connections st \<noteq> [] \<and> hasFiniteETA g (sid st) (destStation p) \<longrightarrow>
        (\<exists>st'. stationAt g' slot = Some st' \<and> p \<in> set (queue st')) \<and>
        (waitTime p > maxWaitMs g \<and> waitTime p > missedWaitMs g \<longrightarrow>
           gameOver g' \<and> gameOverReason g' = Some (missedReason st))"
    unfolding fin w ids go mr r2(6) by blast+
  have A': "waitTime p > maxWaitMs g \<and> \<not> hasFiniteETA g (sid st) (destStation p) \<longrightarrow>
        (\<exists>st'. stationAt g' slot = Some st' \<and> p \<notin> set (queue st') \<and>
               length (queue st') < length (queue st))"
  proof
    assume "waitTime p > maxWaitMs g \<and> \<not> hasFiniteETA g (sid st) (destStation p)"
    with A obtain st' where "stationAt g' slot = Some st'" "p \<notin> set (queue st')"
      "length (queue st') < length (queue st2)" by blast
    then show "\<exists>st'. stationAt g' slot = Some st' \<and> p \<notin> set (queue st') \<and>
               length (queue st') < length (queue st)"
      using len by (intro exI [of _ st']) simp
  qed
  show ?thesis
    apply (rule conjI [OF refreshed])
    apply (rule conjI [OF A'])
    apply (rule conjI [OF B])
    apply (rule C)
    done
qed

subsection \<open>A run that discards a passenger with a finite ETA\<close>

lemma putStation_same:
  assumes "stationAt g i = Some s"
  shows "putStation i s g = g"
proof -
  have "stations g ! i = Some s" using assms by (simp add: stationAt_def split: if_splits)
  then have "(stations g)[i := Some s] = stations g" by (metis list_update_id)
  then show ?thesis by (simp add: putStation_def)
qed

text \<open>A station with an empty queue and no overflow is left as it is.\<close>

lemma sweepStation_empty:
  assumes st: "stationAt g i = Some s" and q: "queue s = []"
    and t: "overflowTimer s = 0" "\<not> isOvercrowded s" and cap: "0 < dynamicCap g s"
  shows "sweepStation rnd dt i (g, k) = Inr ((g, k), False)"
proof -
  have s0: "s\<lparr>queue := []\<rparr> = s" using q by simp
  have r: "refreshWaits g i = g" using st q by (simp add: refreshWaits_def s0 putStation_same)
  have h: "handleEmergencyOvercrowding rnd i (g, k) = Inr (g, k)"
    using st q by (simp add: handleEmergencyOvercrowding_def)
  have s1: "s\<lparr>overflowTimer := 0, isOvercrowded := False\<rparr> = s" using t by simp
  have c: "capacityCheck dt i g = (g, False)"
    using st q cap by (simp add: capacityCheck_def s1 putStation_same)
  have b: "strandedBlock g i = Inr g"
  proof -
    have "g\<lparr>stations := (stations g)[i := Some s]\<rparr> = g"
      using putStation_same [OF st] by (simp add: putStation_def)
    then show ?thesis using st q by (simp add: strandedBlock_def removeStranded_def s0)
  qed
  show ?thesis by (simp add: sweepStation_def st r h c b)
qed

lemma stationS_alt: "stationS = (mkStation 0 0 0 False False)\<lparr>queue := [passengerS]\<rparr>"
  by (simp add: stationS_def passengerS_def)

lemma waitsS: "maxWaitMs gameS = 200000"
  by (simp add: maxWaitMs_def gameS_def mkGame_def cfg0_def)

lemma stationsS:
  "stationAt gameS 0 = Some stationS"
  "stationAt gameS (Suc 0) = Some (mkStation 1 300 0 True False)"
  by (simp_all add: stationAt_def gameS_def mkGame_def)

lemma passengerS_fields:
  "spawnTime passengerS = 0" "waitTime passengerS = 250000" "destStation passengerS = 0"
  by (simp_all add: passengerS_def mkPassenger_def)

lemma stationS_fields:
  "queue stationS = [passengerS]" "connections stationS = []" "sid stationS = 0"
  "\<not> isFinal stationS" "\<not> isInterchange stationS" "overflowTimer stationS = 0"
  "\<not> isOvercrowded stationS"
  by (simp_all add: stationS_alt mkStation_def)

lemma gameS_fields: "gameTime gameS = 250000" "day gameS = 5"
  by (simp_all add: gameS_def mkGame_def)

lemma refreshS: "refreshWaits gameS 0 = gameS"
proof -
  have "passengerS\<lparr>waitTime := gameTime gameS - spawnTime passengerS\<rparr> = passengerS"
    by (simp add: gameS_fields passengerS_def mkPassenger_def)
  then have "stationS\<lparr>queue := map (\<lambda>p. p\<lparr>waitTime := gameTime gameS - spawnTime p\<rparr>)
                                   (queue stationS)\<rparr> = stationS"
    by (simp add: stationS_fields)
  then show ?thesis by (simp add: refreshWaits_def stationsS putStation_same)
qed

lemma reliefS: "handleEmergencyOvercrowding noDraws 0 (gameS, 0) = Inr (gameS, 0)"
proof -
  have stuck: "stuckIdx gameS stationS = [0]"
    by (simp add: stuckIdx_def stationS_fields gameS_fields passengerS_fields)
  show ?thesis
    by (simp add: handleEmergencyOvercrowding_def stationsS stationS_fields stuck
        expressDelivery_def)
qed

lemma capS: "dynamicCap gameS s = (if isFinal s then 15 else if isInterchange s then 12 else 10)"
  by (simp add: dynamicCap_def gameS_fields js_round_def)

lemma capacityS: "capacityCheck 16 0 gameS = (gameS, False)"
proof -
  have "stationS\<lparr>overflowTimer := 0, isOvercrowded := False\<rparr> = stationS"
    by (simp add: stationS_def mkStation_def)
  then show ?thesis
    by (simp add: capacityCheck_def stationsS stationS_fields capS putStation_same)
qed

lemma blockS: "strandedBlock gameS 0 = Inr (putStation 0 (stationS\<lparr>queue := []\<rparr>) gameS)"
  by (simp add: strandedBlock_def stationsS stationS_fields passengerS_fields waitsS
      canBeServed_def removeStranded_def splice1_def putStation_def)

lemma sweepS0:
  "sweepStation noDraws 16 0 (gameS, 0) =
     Inr ((putStation 0 (stationS\<lparr>queue := []\<rparr>) gameS, 0), False)"
  by (simp add: sweepStation_def stationsS refreshS reliefS capacityS blockS)

lemma sweepS1:
  "sweepStation noDraws 16 (Suc 0) (putStation 0 (stationS\<lparr>queue := []\<rparr>) gameS, 0) =
     Inr ((putStation 0 (stationS\<lparr>queue := []\<rparr>) gameS, 0), False)"
proof (rule sweepStation_empty)
  show "stationAt (putStation 0 (stationS\<lparr>queue := []\<rparr>) gameS) (Suc 0) =
        Some (mkStation 1 300 0 True False)"
    by (simp add: stationAt_def putStation_def gameS_def mkGame_def)
  show "0 < dynamicCap (putStation 0 (stationS\<lparr>queue := []\<rparr>) gameS) (mkStation 1 300 0 True False)"
    by (simp add: dynamicCap_def putStation_def gameS_fields js_round_def mkStation_def)
qed (simp_all add: mkStation_def)

text \<open>
  The claim as stated lets every passenger with a finite ETA stay. The code also
  requires the station to have a connected line: in the world \<open>gameS\<close>, at time
  250000, a passenger spawned at time 0 waits at its own destination (ETA 0) on a
  station without lines. The sweep refreshes its wait to 250000, the relief does
  not act on a single passenger, the queue is below capacity, and the passenger is
  discarded; the game goes on.
\<close>

theorem stranded_sweep_counterexample:
  "stationAt gameS 0 = Some stationS \<and> queue stationS = [passengerS] \<and>
   gameTime gameS - spawnTime passengerS = 250000 \<and> maxWaitMs gameS = 200000 \<and>
   hasFiniteETA gameS (sid stationS) (destStation passengerS) \<and>
   updatePassengersAndCheckOvercrowding noDraws 16 gameS =
     Inr (putStation 0 (stationS\<lparr>queue := []\<rparr>) gameS) \<and>
   \<not> gameOver (putStation 0 (stationS\<lparr>queue := []\<rparr>) gameS)"
proof -
  have fin: "hasFiniteETA gameS (sid stationS) (destStation passengerS)"
    by (simp add: stationS_fields passengerS_fields hasFiniteETA_def estimateETA_def etasS)
  have len: "length (stations gameS) = 2" by (simp add: gameS_def mkGame_def)
  have "sweepStations noDraws 16 [0, Suc 0] (gameS, 0) =
        Inr (putStation 0 (stationS\<lparr>queue := []\<rparr>) gameS, 0)"
    by (simp add: sweepS0 sweepS1)
  then have run: "updatePassengersAndCheckOvercrowding noDraws 16 gameS =
        Inr (putStation 0 (stationS\<lparr>queue := []\<rparr>) gameS)"
    by (simp add: updatePassengersAndCheckOvercrowding_def len upt_rec numeral_2_eq_2)
  have go: "\<not> gameOver (putStation 0 (stationS\<lparr>queue := []\<rparr>) gameS)"
    by (simp add: putStation_def gameS_def mkGame_def)
  show ?thesis
    using stationsS(1) stationS_fields(1) gameS_fields(1) passengerS_fields(1) waitsS fin run go
    by simp
qed

subsection \<open>A visit that discards one passenger and ends the game for another\<close>

lemma stationsT:
  "stationAt gameT 0 = Some stationT"
  "stationAt gameT (Suc 0) = Some stationU"
  "stationAt gameT 2 = Some (mkStation 2 600 0 False False)"
  by (simp_all add: stationAt_def gameT_def mkGame_def)

lemma graphT: "buildStationGraph gameT = Inr [[1], [0], []]"
  by (simp add: buildStationGraph_def graphEdges_def gameT_def mkGame_def mkLine_def
      addEdge_def setAdd_def numeral_3_eq_3)

lemma speedT: "effectiveSpeed gameT = 1 / 10"
  by (simp add: effectiveSpeed_def or_default_def gameT_def mkGame_def cfg0_def)

lemma edgeT: "edgeTimeMs gameT 0 (Suc 0) = Fin 3000" "edgeTimeMs gameT (Suc 0) 0 = Fin 3000"
  by (simp_all add: edgeTimeMs_def stationsT speedT hypot_def stationT_def stationU_def mkStation_def)

lemma cfgT: "cfg gameT = cfg0"
  by (simp add: gameT_def mkGame_def)

lemma transferT: "nodeTransferMs gameT (Suc 0) (Suc 0) = 0" "nodeTransferMs gameT 0 (Suc 0) = 5000"
  by (simp_all add: nodeTransferMs_def stationsT cfgT)
     (simp add: stationT_def mkStation_def nullish_def interchangeFactor_def or_default_def cfg0_def)

lemma etasT1: "computeETAs gameT (Suc 0) = Inr [Some (Fin 3000), Some (Fin 0), Some PInf]"
proof -
  have len: "length (stations gameT) = 3" by (simp add: gameT_def mkGame_def)
  have s1: "selectMin [PInf, Fin 0, PInf] [False, False, False] = Some 1"
    by (simp add: selectMin_def selectStep_def upt_rec)
  have s2: "selectMin [Fin 3000, Fin 0, PInf] [False, True, False] = Some 0"
    by (simp add: selectMin_def selectStep_def upt_rec)
  have s3: "selectMin [Fin 3000, Fin 0, PInf] [True, True, False] = None"
    by (simp add: selectMin_def selectStep_def upt_rec)
  have "dijkstraLoop gameT (Suc 0) [[1], [0], []] [PInf, Fin 0, PInf] [False, False, False]
        = [Fin 3000, Fin 0, PInf]"
    apply (subst dijkstraLoop.simps, simp add: s1 relax_def edgeT transferT)
    apply (subst dijkstraLoop.simps, simp add: s2 relax_def edgeT transferT)
    apply (subst dijkstraLoop.simps, simp add: s3)
    done
  then show ?thesis
    by (simp add: computeETAs_def graphT len numeral_3_eq_3)
qed

lemma etasT2: "computeETAs gameT 2 = Inr [Some PInf, Some PInf, Some (Fin 0)]"
proof -
  have len: "length (stations gameT) = 3" by (simp add: gameT_def mkGame_def)
  have s1: "selectMin [PInf, PInf, Fin 0] [False, False, False] = Some 2"
    by (simp add: selectMin_def selectStep_def upt_rec)
  have s2: "selectMin [PInf, PInf, Fin 0] [False, False, True] = None"
    by (simp add: selectMin_def selectStep_def upt_rec)
  have "dijkstraLoop gameT 2 [[1], [0], []] [PInf, PInf, Fin 0] [False, False, False]
        = [PInf, PInf, Fin 0]"
    apply (subst dijkstraLoop.simps, simp add: s1)
    apply (subst dijkstraLoop.simps, simp add: s2)
    done
  then show ?thesis
    by (simp add: computeETAs_def graphT len numeral_3_eq_3)
qed

lemma finT: "hasFiniteETA gameT 0 (Suc 0)" "\<not> hasFiniteETA gameT 0 2"
  by (simp_all add: hasFiniteETA_def estimateETA_def etasT1 etasT2)

lemma waitsT: "maxWaitMs gameT = 200000" "missedWaitMs gameT = 600000"
  by (simp_all add: maxWaitMs_def missedWaitMs_def or_default_def gameT_def mkGame_def cfg0_def)

lemma servedT: "canBeServed gameT stationT paxA = Inr True" "canBeServed gameT stationT paxB = Inr False"
  by (simp_all add: canBeServed_def estimateETA_def etasT1 etasT2)
     (simp_all add: stationT_def paxA_def paxB_def mkStation_def mkPassenger_def etasT1 etasT2)

lemma queueT: "queue stationT = [paxA, paxB, paxC]"
  by (simp add: stationT_def)

lemma waitT: "waitTime paxA = 700000" "waitTime paxB = 250000" "waitTime paxC = 10"
  by (simp_all add: paxA_def paxB_def paxC_def)

lemma spawnT: "spawnTime paxA = 0" "spawnTime paxB = 450000" "spawnTime paxC = 699990"
  by (simp_all add: paxA_def paxB_def paxC_def mkPassenger_def)

lemma gameT_fields: "gameTime gameT = 700000" "day gameT = 5"
  by (simp_all add: gameT_def mkGame_def)

lemma stationT_fields:
  "connections stationT = [0]" "sid stationT = 0" "\<not> isFinal stationT"
  "\<not> isInterchange stationT" "overflowTimer stationT = 0" "\<not> isOvercrowded stationT"
  by (simp_all add: stationT_def mkStation_def)

lemma endGame_as_ended: "endGame reason g = ended True (Some reason) g"
  by (simp add: endGame_def ended_def)

lemma refreshT: "refreshWaits gameT 0 = gameT"
proof -
  have "paxA\<lparr>waitTime := gameTime gameT - spawnTime paxA\<rparr> = paxA"
    "paxB\<lparr>waitTime := gameTime gameT - spawnTime paxB\<rparr> = paxB"
    "paxC\<lparr>waitTime := gameTime gameT - spawnTime paxC\<rparr> = paxC"
    by (simp_all add: gameT_fields paxA_def paxB_def paxC_def mkPassenger_def)
  then have "stationT\<lparr>queue := map (\<lambda>p. p\<lparr>waitTime := gameTime gameT - spawnTime p\<rparr>)
                                   (queue stationT)\<rparr> = stationT"
    by (simp add: queueT)
  then show ?thesis by (simp add: refreshWaits_def stationsT putStation_same)
qed

text \<open>
  Two passengers are stuck, but no other station can take them: station 1 holds
  four passengers and station 2 has no line.
\<close>

lemma reliefT: "handleEmergencyOvercrowding noDraws 0 (gameT, 0) = Inr (gameT, 0)"
proof -
  have stuck: "stuckIdx gameT stationT = [0, Suc 0]"
    by (simp add: stuckIdx_def queueT gameT_fields spawnT upt_rec)
  have alts: "alternativeSlots gameT 0 = Inr []"
    by (simp add: alternativeSlots_def gameT_def mkGame_def stationU_def mkStation_def upt_rec)
  show ?thesis
    by (simp add: handleEmergencyOvercrowding_def stationsT queueT stuck alts
        expressDelivery_def stationT_fields)
qed

lemma capacityT: "capacityCheck 16 0 gameT = (gameT, False)"
proof -
  have "stationT\<lparr>overflowTimer := 0, isOvercrowded := False\<rparr> = stationT"
    by (simp add: stationT_def mkStation_def)
  moreover have "dynamicCap gameT stationT = 10"
    by (simp add: dynamicCap_def gameT_fields stationT_fields js_round_def)
  ultimately show ?thesis
    by (simp add: capacityCheck_def stationsT queueT putStation_same)
qed

lemma blockT:
  "strandedBlock gameT 0 =
     Inr (putStation 0 (stationT\<lparr>queue := [paxA, paxC]\<rparr>) (endGame (missedReason stationT) gameT))"
  by (simp add: strandedBlock_def stationsT queueT upt_rec waitT waitsT servedT
      removeStranded_def splice1_def endGame_as_ended waits_ended canBeServed_ended)
     (simp add: putStation_def ended_def)

lemma sweepT:
  "sweepStation noDraws 16 0 (gameT, 0) =
     Inr ((putStation 0 (stationT\<lparr>queue := [paxA, paxC]\<rparr>)
             (endGame (missedReason stationT) gameT), 0), False)"
  by (simp add: sweepStation_def stationsT refreshT reliefT capacityT blockT)

theorem stranded_sweep_witness:
  "\<exists>g' st'. sweepStation noDraws 16 0 (gameT, 0) = Inr ((g', 0), False) \<and>
     stationAt g' 0 = Some st' \<and> paxB \<notin> set (queue st') \<and> paxA \<in> set (queue st') \<and>
     length (queue st') < length (queue stationT) \<and> gameOver g' \<and>
     gameOverReason g' = Some (missedReason stationT)"
proof -
  let ?g' = "putStation 0 (stationT\<lparr>queue := [paxA, paxC]\<rparr>) (endGame (missedReason stationT) gameT)"
  have st: "stationAt gameT 0 = Some stationT" by (rule stationsT)
  have relief: "handleEmergencyOvercrowding noDraws 0 (refreshWaits gameT 0, 0) = Inr (gameT, 0)"
    by (simp add: refreshT reliefT)
  have ids: "sid stationT = 0" "destStation paxA = 1" "destStation paxB = 2" "connections stationT \<noteq> []"
    by (simp_all add: stationT_def paxA_def paxB_def mkStation_def mkPassenger_def)
  have A: "paxA \<in> set (queue stationT)" and B: "paxB \<in> set (queue stationT)"
    by (simp_all add: queueT)
  from stranded_sweep [OF st relief st sweepT B]
  have "\<exists>st'. stationAt ?g' 0 = Some st' \<and> paxB \<notin> set (queue st') \<and>
              length (queue st') < length (queue stationT)"
    using finT waitT waitsT ids by auto
  moreover from stranded_sweep [OF st relief st sweepT A]
  have "(\<exists>st'. stationAt ?g' 0 = Some st' \<and> paxA \<in> set (queue st')) \<and> gameOver ?g' \<and>
        gameOverReason ?g' = Some (missedReason stationT)"
    using finT waitT waitsT ids by auto
  ultimately show ?thesis using sweepT by auto
qed

subsection \<open>A visit in which the relief moves the stuck passengers\<close>

text \<open>
  In \<open>gameV\<close> station 1 has a line and an empty queue, so the relief moves the two
  stuck passengers of station 0 there, each with a fresh \<open>transferReadyAt\<close>; nothing
  is left for the stranded check of station 0.
\<close>

lemma relief_moves:
  "handleEmergencyOvercrowding noDraws 0 (gameV, 0) =
     Inr (putStation (Suc 0)
            (stationU\<lparr>queue := [paxA\<lparr>transferReadyAt := 705000\<rparr>,
                                 paxB\<lparr>transferReadyAt := 705000\<rparr>]\<rparr>)
            (putStation 0 (stationT\<lparr>queue := [paxC]\<rparr>) gameV), 2)"
proof -
  have st: "stationAt gameV 0 = Some stationT"
    "stationAt gameV (Suc 0) = Some (stationU\<lparr>queue := []\<rparr>)"
    by (simp_all add: stationAt_def gameV_def mkGame_def)
  have f: "gameTime gameV = 700000" "cfg gameV = cfg0" by (simp_all add: gameV_def mkGame_def)
  have stuck: "stuckIdx gameV stationT = [0, Suc 0]"
    by (simp add: stuckIdx_def queueT f spawnT upt_rec)
  have alts: "alternativeSlots gameV 0 = Inr [Suc 0]"
    by (simp add: alternativeSlots_def gameV_def mkGame_def stationU_def mkStation_def upt_rec)
  have mv: "passengersToMove gameV stationT = [0, Suc 0]"
    by (simp add: passengersToMove_def stuck)
  have pk: "pick [Suc 0] (noDraws k) = Some (Suc 0)" for k
    by (simp add: pick_def noDraws_def js_nth_def)
  have rd: "js_round (nullish (mctMs stationU) 8000 * or_default (mctMultiplier cfg0) 1) = 5000"
    by (simp add: stationU_def mkStation_def nullish_def or_default_def cfg0_def js_round_def)
  let ?g1 = "putStation (Suc 0) (stationU\<lparr>queue := [paxA\<lparr>transferReadyAt := 705000\<rparr>]\<rparr>)
               (putStation 0 (stationT\<lparr>queue := [paxB, paxC]\<rparr>) gameV)"
  have one: "moveOne noDraws [Suc 0] 0 0 (gameV, 0) = Inr (?g1, Suc 0)"
    by (simp add: moveOne_def pk st queueT splice1_def f rd)
  have st1: "stationAt ?g1 0 = Some (stationT\<lparr>queue := [paxB, paxC]\<rparr>)"
    "stationAt ?g1 (Suc 0) = Some (stationU\<lparr>queue := [paxA\<lparr>transferReadyAt := 705000\<rparr>]\<rparr>)"
    by (simp_all add: stationAt_def putStation_def gameV_def mkGame_def)
  have f1: "gameTime ?g1 = 700000" "cfg ?g1 = cfg0" by (simp_all add: putStation_def f)
  let ?g2 = "putStation (Suc 0)
               (stationU\<lparr>queue := [paxA\<lparr>transferReadyAt := 705000\<rparr>,
                                    paxB\<lparr>transferReadyAt := 705000\<rparr>]\<rparr>)
               (putStation 0 (stationT\<lparr>queue := [paxC]\<rparr>) gameV)"
  have two: "moveOne noDraws [Suc 0] 0 0 (?g1, Suc 0) = Inr (?g2, 2)"
    by (simp add: moveOne_def pk st1 splice1_def f1 rd)
       (simp add: putStation_def gameV_def mkGame_def)
  have all: "moveAll noDraws [Suc 0] 0 [0, Suc 0] 0 (gameV, 0) = Inr (?g2, 2)"
    by (simp add: one two)
  have fin: "\<not> isFinal (stationT\<lparr>queue := [paxC]\<rparr>)" by (simp add: stationT_fields)
  have s2: "stationAt ?g2 0 = Some (stationT\<lparr>queue := [paxC]\<rparr>)"
    by (simp add: stationAt_def putStation_def gameV_def mkGame_def)
  show ?thesis
    by (simp add: handleEmergencyOvercrowding_def st queueT stuck alts mv one two
        expressDelivery_def s2 fin)
qed

section \<open>Vehicle positions stay in range\<close>

lemma hypot_nonneg: "0 \<le> hypot a b"
  by (simp add: hypot_def)

lemma cumDist_bounds:
  "c \<in> set (cumDist acc sts) \<Longrightarrow> acc \<le> c \<and> c \<le> last (cumDist acc sts)"
proof (induction acc sts arbitrary: c rule: cumDist.induct)
  case (1 acc a b rest)
  let ?d = "acc + hypot (sx b - sx a) (sy b - sy a)"
  have d: "acc \<le> ?d" using hypot_nonneg [of "sx b - sx a" "sy b - sy a"] by simp
  show ?case
  proof (cases "cumDist ?d (b # rest) = []")
    case True
    then show ?thesis using "1.prems" d by simp
  next
    case False
    then obtain c0 where c0: "c0 \<in> set (cumDist ?d (b # rest))" by (cases "cumDist ?d (b # rest)") auto
    from "1.IH" [OF c0] have dl: "?d \<le> last (cumDist ?d (b # rest))" by simp
    show ?thesis
    proof (cases "c = ?d")
      case True
      then show ?thesis using d dl False by simp
    next
      case ne: False
      then have "c \<in> set (cumDist ?d (b # rest))" using "1.prems" by simp
      from "1.IH" [OF this] show ?thesis using d False by simp
    qed
  qed
qed simp_all

lemma stationNorms_range:
  assumes "v \<in> set (stationNorms sts)"
  shows "0 \<le> v \<and> v \<le> 1"
proof -
  let ?params = "cumDist 0 sts"
  let ?cum = "if ?params = [] then 0 else last ?params"
  let ?tot = "max ?cum (1 / 1000000)"
  have tot: "0 < ?tot" by simp
  from assms have "v = 0 \<or> (\<exists>c \<in> set ?params. v = c / ?tot)"
    by (auto simp: stationNorms_def Let_def)
  then show ?thesis
  proof
    assume "v = 0" then show ?thesis by simp
  next
    assume "\<exists>c \<in> set ?params. v = c / ?tot"
    then obtain c where c: "c \<in> set ?params" "v = c / ?tot" by blast
    from cumDist_bounds [OF c(1)] have b: "0 \<le> c" "c \<le> last ?params" by simp_all
    have ne: "?params \<noteq> []" using c(1) by auto
    then have "c \<le> ?tot" using b by simp
    then have "c / ?tot \<le> 1" using tot by (simp add: divide_le_eq_1)
    moreover have "0 \<le> c / ?tot" using b(1) tot by simp
    ultimately show ?thesis using c(2) by simp
  qed
qed

lemma handleStationArrival_position:
  assumes "handleStationArrival g ti si = Inr g'" "trainAt g ti = Some tr"
  shows "\<exists>tr'. trainAt g' ti = Some tr' \<and> position tr' = position tr"
proof -
  have ti: "ti < length (trains g)" using assms(2) by (simp add: trainAt_def split: if_splits)
  obtain st0 where st0: "stationAt g si = Some st0"
    using assms by (auto simp: handleStationArrival_def split: option.splits)
  show ?thesis
  proof (cases "lineAt g (lineId tr)")
    case None
    then have "g' = g" using assms st0 by (simp add: handleStationArrival_def)
    then show ?thesis using assms(2) by simp
  next
    case (Some l)
    obtain remaining pushed where d: "disembark g l st0 (passengers tr) = (remaining, pushed)"
      by (cases "disembark g l st0 (passengers tr)")
    have "g' = putTrain ti (tr\<lparr>passengers := remaining\<rparr>)
                      (putStation si (st0\<lparr>queue := queue st0 @ pushed\<rparr>) g) \<or>
          (\<exists>b k. g' = putTrain ti (tr\<lparr>passengers := remaining @ b\<rparr>)
                      (putStation si (st0\<lparr>queue := k\<rparr>)
                       (putTrain ti (tr\<lparr>passengers := remaining\<rparr>)
                      (putStation si (st0\<lparr>queue := queue st0 @ pushed\<rparr>) g))))"
      using assms st0 Some d unfolding handleStationArrival_def Let_def
      by (auto split: if_splits sum.splits prod.splits)
    then show ?thesis using ti
      by (auto simp: putTrain_def putStation_def trainAt_def)
  qed
qed

lemma arriveAtStationIdx_position:
  assumes "arriveAtStationIdx g ti l idx = Inr g'" "trainAt g ti = Some tr"
  shows "\<exists>tr'. trainAt g' ti = Some tr' \<and> position tr' = position tr"
proof -
  let ?si = "lstations l ! idx"
  from assms(1) obtain g1 where h: "handleStationArrival g ti ?si = Inr g1"
    by (auto simp: arriveAtStationIdx_def Let_def split: sum.splits)
  from handleStationArrival_position [OF h assms(2)] obtain tr1 where
    tr1: "trainAt g1 ti = Some tr1" "position tr1 = position tr" by blast
  then have ti: "ti < length (trains g1)" by (simp add: trainAt_def split: if_splits)
  from assms(1) h tr1(1) obtain st where st: "stationAt g1 ?si = Some st"
    by (auto simp: arriveAtStationIdx_def Let_def split: option.splits)
  have "trainAt g' ti = Some (tr1\<lparr>lastStationVisited := int ?si, stationCooldown := 600,
          dwellRemaining := dwellDuration g1 st,
          direction := (if \<not> isLoop l \<and> (idx = 0 \<or> idx = length (lstations l) - 1)
                        then direction tr1 * (-1) else direction tr1)\<rparr>)"
    using assms(1) h tr1(1) st ti by (auto simp: arriveAtStationIdx_def Let_def trainAt_putTrain)
  then show ?thesis using tr1(2) by simp
qed

lemma find_mem: "find P xs = Some x \<Longrightarrow> x \<in> set xs"
  by (induction xs) (auto split: if_splits)

lemma crossingIdx_bound: "crossingIdx tr l norms a b dir = Some i \<Longrightarrow> i < length norms"
  by (auto simp: crossingIdx_def Let_def split: if_splits dest!: find_mem)

lemma checkCrossing_position:
  assumes "checkCrossing g ti tr l norms a b = Inr (Some g')" "ti < length (trains g)"
  shows "\<exists>tr'. trainAt g' ti = Some tr' \<and> position tr' \<in> set norms"
proof -
  from assms(1) obtain i where i: "crossingIdx tr l norms a b (direction tr) = Some i"
    and arr: "arriveAtStationIdx (putTrain ti (tr\<lparr>position := norms ! i\<rparr>) g) ti l i = Inr g'"
    by (auto simp: checkCrossing_def split: option.splits sum.splits)
  have "trainAt (putTrain ti (tr\<lparr>position := norms ! i\<rparr>) g) ti = Some (tr\<lparr>position := norms ! i\<rparr>)"
    using assms(2) by (rule trainAt_putTrain)
  from arriveAtStationIdx_position [OF arr this] crossingIdx_bound [OF i]
  show ?thesis by auto
qed

lemma wrapMove_position:
  assumes "wrapMove g ti tr l norms prevPos edge wrapped = Inr g'" "ti < length (trains g)"
  shows "\<exists>tr'. trainAt g' ti = Some tr' \<and> (position tr' \<in> set norms \<or> position tr' = wrapped)"
proof (cases "checkCrossing g ti tr l norms prevPos edge")
  case (Inl e)
  then show ?thesis using assms(1) by (simp add: wrapMove_def)
next
  case (Inr r1)
  show ?thesis
  proof (cases r1)
    case (Some g1)
    then have "g' = g1" using assms(1) Inr by (simp add: wrapMove_def)
    then show ?thesis using checkCrossing_position [OF _ assms(2)] Inr Some by blast
  next
    case None
    show ?thesis
    proof (cases "checkCrossing g ti tr l norms (1 - edge) wrapped")
      case (Inl e)
      then show ?thesis using assms(1) Inr None by (simp add: wrapMove_def)
    next
      case r2: (Inr r2)
      show ?thesis
      proof (cases r2)
        case (Some g2)
        then have "g' = g2" using assms(1) Inr None r2 by (simp add: wrapMove_def)
        then show ?thesis using checkCrossing_position [OF _ assms(2)] r2 Some by blast
      next
        case n2: None
        then have "g' = putTrain ti (tr\<lparr>position := wrapped\<rparr>) g"
          using assms(1) Inr None r2 by (simp add: wrapMove_def)
        then show ?thesis using assms(2) by (simp add: trainAt_putTrain)
      qed
    qed
  qed
qed

lemma clampMove_position:
  assumes "clampMove g ti tr l proposed = Inr g'" "ti < length (trains g)"
  shows "\<exists>tr'. trainAt g' ti = Some tr' \<and> 0 \<le> position tr' \<and> position tr' \<le> 1"
proof -
  let ?tr1 = "tr\<lparr>position := max 0 (min 1 proposed)\<rparr>"
  have t1: "trainAt (putTrain ti ?tr1 g) ti = Some ?tr1" using assms(2) by (rule trainAt_putTrain)
  have rng: "0 \<le> position ?tr1 \<and> position ?tr1 \<le> 1" by simp
  from assms(1) have
    "(\<exists>i. arriveAtStationIdx (putTrain ti ?tr1 g) ti l i = Inr g') \<or>
     g' = putTrain ti (?tr1\<lparr>position := 1.0, direction := -1\<rparr>) g \<or>
     g' = putTrain ti (?tr1\<lparr>position := 0.0, direction := 1\<rparr>) g \<or>
     g' = putTrain ti ?tr1 g"
    unfolding clampMove_def Let_def by (auto split: if_splits)
  then show ?thesis
  proof (elim disjE exE)
    fix i assume "arriveAtStationIdx (putTrain ti ?tr1 g) ti l i = Inr g'"
    from arriveAtStationIdx_position [OF this t1] rng show ?thesis by auto
  next
    assume "g' = putTrain ti (?tr1\<lparr>position := 1.0, direction := -1\<rparr>) g"
    then show ?thesis using assms(2) by (simp add: trainAt_putTrain)
  next
    assume "g' = putTrain ti (?tr1\<lparr>position := 0.0, direction := 1\<rparr>) g"
    then show ?thesis using assms(2) by (simp add: trainAt_putTrain)
  next
    assume "g' = putTrain ti ?tr1 g"
    then show ?thesis using assms(2) by (simp add: trainAt_putTrain)
  qed
qed

lemma wrapped01_range:
  assumes "0 \<le> p" "p \<le> 1" "\<bar>s\<bar> < 1"
  shows "0 \<le> wrapped01 (p + s) \<and> wrapped01 (p + s) < 1"
  using assms by (auto simp: wrapped01_def loopPlace_def)

lemma moveTrain_loop_position:
  assumes "moveTrain g ti tr l sts deltaTime = Inr g'" "ti < length (trains g)" "isLoop l"
  shows "\<exists>tr'. trainAt g' ti = Some tr' \<and>
           (position tr' \<in> set (stationNorms sts) \<or>
            position tr' = wrapped01 (position tr + tickStep tr l deltaTime))"
proof -
  let ?nxt = "position tr + tickStep tr l deltaTime"
  have tg: "terminalGuard l tr = tr" using assms(3) by (simp add: terminalGuard_def)
  consider (up) "?nxt > 1" | (down) "\<not> ?nxt > 1" "?nxt < 0" | (mid) "\<not> ?nxt > 1" "\<not> ?nxt < 0"
    by blast
  then show ?thesis
  proof cases
    case up
    then have "wrapMove g ti tr l (stationNorms sts) (position tr) 1.0 (?nxt - 1.0) = Inr g'"
      using assms(1,3) tg by (simp add: moveTrain_def Let_def tickStep_def)
    from wrapMove_position [OF this assms(2)] up show ?thesis by (simp add: wrapped01_def)
  next
    case down
    then have "wrapMove g ti tr l (stationNorms sts) (position tr) 0.0 (?nxt + 1.0) = Inr g'"
      using assms(1,3) tg by (simp add: moveTrain_def Let_def tickStep_def)
    from wrapMove_position [OF this assms(2)] down show ?thesis by (simp add: wrapped01_def)
  next
    case mid
    show ?thesis
    proof (cases "checkCrossing g ti tr l (stationNorms sts) (position tr) ?nxt")
      case (Inl e)
      then show ?thesis using assms(1,3) tg mid by (simp add: moveTrain_def Let_def tickStep_def)
    next
      case (Inr r)
      show ?thesis
      proof (cases r)
        case (Some g1)
        then have "g' = g1" using assms(1,3) tg mid Inr by (simp add: moveTrain_def Let_def tickStep_def)
        then show ?thesis using checkCrossing_position [OF _ assms(2)] Inr Some by blast
      next
        case None
        then have "g' = putTrain ti (tr\<lparr>position := loopPlace ?nxt\<rparr>) g"
          using assms(1,3) tg mid Inr by (simp add: moveTrain_def Let_def tickStep_def)
        then show ?thesis using assms(2) mid by (simp add: trainAt_putTrain wrapped01_def)
      qed
    qed
  qed
qed

lemma moveTrain_line_position:
  assumes "moveTrain g ti tr l sts deltaTime = Inr g'" "ti < length (trains g)" "\<not> isLoop l"
  shows "\<exists>tr'. trainAt g' ti = Some tr' \<and> 0 \<le> position tr' \<and> position tr' \<le> 1"
proof -
  let ?tr = "terminalGuard l tr"
  let ?nxt = "position ?tr + (speed ?tr * deltaTime) / max 100 (totalLength l) * direction ?tr"
  show ?thesis
  proof (cases "checkCrossing g ti ?tr l (stationNorms sts) (position ?tr) ?nxt")
    case (Inl e)
    then show ?thesis using assms(1,3) by (simp add: moveTrain_def Let_def)
  next
    case (Inr r)
    show ?thesis
    proof (cases r)
      case (Some g1)
      then have "g' = g1" using assms(1,3) Inr by (simp add: moveTrain_def Let_def)
      then obtain tr' where "trainAt g' ti = Some tr'" "position tr' \<in> set (stationNorms sts)"
        using checkCrossing_position [OF _ assms(2)] Inr Some by blast
      then show ?thesis using stationNorms_range by blast
    next
      case None
      then have "clampMove g ti ?tr l ?nxt = Inr g'"
        using assms(1,3) Inr by (simp add: moveTrain_def Let_def)
      from clampMove_position [OF this assms(2)] show ?thesis .
    qed
  qed
qed

lemma endDwell_position:
  "\<not> isLoop l \<Longrightarrow> 0 \<le> position (endDwell l tr) \<and> position (endDwell l tr) \<le> 1"
  "isLoop l \<Longrightarrow> position (endDwell l tr) = position tr"
  by (auto simp: endDwell_def Let_def)

text \<open>
  Claim C6, as amended. For a vehicle whose position lies in \<open>[0, 1]\<close> (it is
  created at 0): after \<open>updateTrains\<close> has handled it, its position lies in
  \<open>[0, 1]\<close> on a non-loop line; on a loop line, provided the step of the tick
  (\<open>speed * deltaTime / max(100, totalLength)\<close>) is less than one lap, its position
  lies in \<open>[0, 1]\<close>, and in \<open>[0, 1)\<close> unless it is unchanged (dwelling or skipped)
  or the vehicle snapped to a station: every wrapped value is back in \<open>[0, 1)\<close>.
\<close>

theorem position_in_range:
  assumes run: "updateTrain deltaTime ti g = Inr g'"
    and tr: "trainAt g ti = Some tr"
    and l: "lineAt g (lineId tr) = Some l"
    and rng: "0 \<le> position tr" "position tr \<le> 1"
  shows "\<exists>tr'. trainAt g' ti = Some tr' \<and>
           (\<not> isLoop l \<longrightarrow> 0 \<le> position tr' \<and> position tr' \<le> 1) \<and>
           (isLoop l \<and> \<bar>tickStep tr l deltaTime\<bar> < 1 \<longrightarrow>
              0 \<le> position tr' \<and> position tr' \<le> 1 \<and>
              (position tr' < 1 \<or> position tr' = position tr \<or>
               position tr' \<in> set (stationNorms (map (\<lambda>si. the (stationAt g si)) (lstations l)))))"
proof -
  let ?sts = "map (\<lambda>si. the (stationAt g si)) (lstations l)"
  let ?P = "\<lambda>tr'. (\<not> isLoop l \<longrightarrow> 0 \<le> position tr' \<and> position tr' \<le> 1) \<and>
           (isLoop l \<and> \<bar>tickStep tr l deltaTime\<bar> < 1 \<longrightarrow>
              0 \<le> position tr' \<and> position tr' \<le> 1 \<and>
              (position tr' < 1 \<or> position tr' = position tr \<or>
               position tr' \<in> set (stationNorms ?sts)))"
  have ti: "ti < length (trains g)" using tr by (simp add: trainAt_def split: if_splits)
  have same: "?P tr'" if "position tr' = position tr" for tr' using that rng by simp
  have fin: ?thesis if "trainAt g' ti = Some tr'" "?P tr'" for tr'
    by (rule exI [of _ tr'], rule conjI [OF that])
  define tr1 where "tr1 = (if stationCooldown tr > 0
      then tr\<lparr>stationCooldown := stationCooldown tr - deltaTime\<rparr> else tr)"
  have p1: "position tr1 = position tr" "speed tr1 = speed tr" "direction tr1 = direction tr"
    by (simp_all add: tr1_def)
  have ts: "tickStep tr1 l deltaTime = tickStep tr l deltaTime" by (simp add: tickStep_def p1)
  define tr2 where "tr2 = tr1\<lparr>dwellRemaining := dwellRemaining tr1 - deltaTime\<rparr>"
  have p2: "position tr2 = position tr" by (simp add: tr2_def p1)
  have unf: "updateTrain deltaTime ti g =
      (if length (lstations l) < 2 then Inr g
       else if \<exists>si \<in> set (lstations l). stationAt g si = None then Inr g
       else if dwellRemaining tr1 > 0 then
              (if dwellRemaining tr2 \<le> 0 then Inr (putTrain ti (endDwell l tr2) g)
               else Inr (putTrain ti tr2 g))
       else moveTrain g ti tr1 l ?sts deltaTime)"
    unfolding updateTrain_def tr1_def tr2_def Let_def by (simp add: tr l)
  consider (skip) "g' = g"
    | (dwell) "g' = putTrain ti tr2 g"
    | (wake) "g' = putTrain ti (endDwell l tr2) g"
    | (move) "moveTrain g ti tr1 l ?sts deltaTime = Inr g'"
  proof (cases "length (lstations l) < 2")
    case True
    then have "updateTrain deltaTime ti g = Inr g" unfolding unf by (rule if_P)
    then have "g' = g" using run by simp
    then show ?thesis by (rule skip)
  next
    case long: False
    show ?thesis
    proof (cases "\<exists>si \<in> set (lstations l). stationAt g si = None")
      case True
      then have "updateTrain deltaTime ti g = Inr g" unfolding unf if_not_P [OF long] by (rule if_P)
      then have "g' = g" using run by simp
      then show ?thesis by (rule skip)
    next
      case present: False
      note u = unf [unfolded if_not_P [OF long] if_not_P [OF present]]
      show ?thesis
      proof (cases "dwellRemaining tr1 > 0")
        case False
        then have "moveTrain g ti tr1 l ?sts deltaTime = Inr g'" using run u by simp
        then show ?thesis by (rule move)
      next
        case True
        show ?thesis
        proof (cases "dwellRemaining tr2 \<le> 0")
          case True
          then have "g' = putTrain ti (endDwell l tr2) g"
            using run u \<open>dwellRemaining tr1 > 0\<close> by simp
          then show ?thesis by (rule wake)
        next
          case False
          then have "g' = putTrain ti tr2 g" using run u True by simp
          then show ?thesis by (rule dwell)
        qed
      qed
    qed
  qed
  then show ?thesis
  proof cases
    case skip
    then have "trainAt g' ti = Some tr" using tr by simp
    then show ?thesis by (rule fin) (rule same, rule refl)
  next
    case dwell
    then have "trainAt g' ti = Some tr2"
      using ti by (simp add: trainAt_putTrain)
    moreover have "?P tr2" by (rule same) (rule p2)
    ultimately show ?thesis by (rule fin)
  next
    case wake
    have t: "trainAt g' ti = Some (endDwell l tr2)" using wake ti by (simp add: trainAt_putTrain)
    have "?P (endDwell l tr2)"
    proof (cases "isLoop l")
      case True
      then have "position (endDwell l tr2) = position tr" by (simp add: endDwell_position(2) p2)
      then show ?thesis by (rule same)
    next
      case False
      then show ?thesis using endDwell_position(1) [of l tr2] by simp
    qed
    with t show ?thesis by (rule fin)
  next
    case move
    show ?thesis
    proof (cases "isLoop l")
      case False
      from moveTrain_line_position [OF move ti False] obtain tr' where
        t: "trainAt g' ti = Some tr'" and r: "0 \<le> position tr'" "position tr' \<le> 1" by blast
      have "?P tr'" using False r by simp
      with t show ?thesis by (rule fin)
    next
      case True
      from moveTrain_loop_position [OF move ti True] obtain tr' where
        t: "trainAt g' ti = Some tr'" and
        d: "position tr' \<in> set (stationNorms ?sts) \<or>
            position tr' = wrapped01 (position tr + tickStep tr l deltaTime)"
        unfolding p1 ts by blast
      have "?P tr'"
      proof (intro conjI impI)
        assume "\<not> isLoop l" then show "0 \<le> position tr'" "position tr' \<le> 1" using True by simp_all
      next
        assume h: "isLoop l \<and> \<bar>tickStep tr l deltaTime\<bar> < 1"
        from d have r: "0 \<le> position tr' \<and> position tr' \<le> 1 \<and>
              (position tr' < 1 \<or> position tr' \<in> set (stationNorms ?sts))"
        proof
          assume "position tr' \<in> set (stationNorms ?sts)"
          then show ?thesis using stationNorms_range by blast
        next
          assume "position tr' = wrapped01 (position tr + tickStep tr l deltaTime)"
          then show ?thesis using wrapped01_range [OF rng, of "tickStep tr l deltaTime"] h by simp
        qed
        then show "0 \<le> position tr'" "position tr' \<le> 1"
          "position tr' < 1 \<or> position tr' = position tr \<or> position tr' \<in> set (stationNorms ?sts)"
          by auto
      qed
      with t show ?thesis by (rule fin)
    qed
  qed
qed

lemma normsLM:
  "stationNorms [mkStation i 0 0 a b, mkStation j 300 0 c d] = [0, 1]"
  by (simp add: stationNorms_def mkStation_def hypot_axis)

lemma trainL_fields:
  "lineId trainL = 0" "position trainL = 1 / 2" "direction trainL = 1" "speed trainL = 1 / 10"
  "lastStationVisited trainL = 1" "stationCooldown trainL = 0" "dwellRemaining trainL = 0"
  by (simp_all add: trainL_def mkTrain_def)

lemma lineLM_fields:
  "lstations lineL = [0, 1]" "isLoop lineL" "totalLength lineL = 300"
  "lstations lineM = [0, 1]" "\<not> isLoop lineM" "totalLength lineM = 300"
  by (simp_all add: lineL_def lineM_def mkLine_def)

lemma gameLM_fields:
  "trainAt gameL 0 = Some trainL" "lineAt gameL 0 = Some lineL"
  "trainAt gameM 0 = Some trainL" "lineAt gameM 0 = Some lineM"
  "stationAt gameL 0 = Some (mkStation 0 0 0 False False)"
  "stationAt gameL (Suc 0) = Some (mkStation 1 300 0 False False)"
  "stationAt gameM 0 = Some (mkStation 0 0 0 False False)"
  "stationAt gameM (Suc 0) = Some (mkStation 1 300 0 False False)"
  by (simp_all add: trainAt_def lineAt_def stationAt_def gameL_def gameM_def mkGame_def)

lemma noCrossL:
  "crossingIdx trainL lineL [0, 1] (1 / 2) 1 1 = None"
  "crossingIdx trainL lineL [0, 1] 0 (3 / 2) 1 = None"
  "crossingIdx trainL lineL [0, 1] (1 / 2) (51 / 100) 1 = None"
  by (simp_all add: crossingIdx_def trainL_fields lineLM_fields upt_rec crossEps_def)

lemma noCrossM: "crossingIdx trainL lineM [0, 1] (1 / 2) (51 / 100) 1 = None"
  by (simp add: crossingIdx_def trainL_fields lineLM_fields upt_rec crossEps_def)

text \<open>
  Without the bound on the step the loop part fails: the wrapped value is
  \<open>proposed - 1\<close>, computed once. With a step of two laps from position 1/2 the
  vehicle is left at 3/2 when its update returns.
\<close>

theorem position_loop_counterexample:
  "isLoop lineL \<and> trainAt gameL 0 = Some trainL \<and> lineAt gameL (lineId trainL) = Some lineL \<and>
   position trainL = 1 / 2 \<and>
   updateTrain 6000 0 gameL = Inr (putTrain 0 (trainL\<lparr>position := 3 / 2\<rparr>) gameL)"
proof -
  have "moveTrain gameL 0 trainL lineL [mkStation 0 0 0 False False, mkStation 1 300 0 False False] 6000
        = Inr (putTrain 0 (trainL\<lparr>position := 3 / 2\<rparr>) gameL)"
    by (simp add: moveTrain_def terminalGuard_def lineLM_fields trainL_fields normsLM wrapMove_def
        checkCrossing_def noCrossL Let_def)
  then have "updateTrain 6000 0 gameL = Inr (putTrain 0 (trainL\<lparr>position := 3 / 2\<rparr>) gameL)"
    by (simp add: updateTrain_def gameLM_fields trainL_fields lineLM_fields Let_def)
  then show ?thesis by (simp add: lineLM_fields gameLM_fields trainL_fields)
qed

lemma moveL30:
  "updateTrain 30 0 gameL = Inr (putTrain 0 (trainL\<lparr>position := 51 / 100\<rparr>) gameL)"
proof -
  have "moveTrain gameL 0 trainL lineL [mkStation 0 0 0 False False, mkStation 1 300 0 False False] 30
        = Inr (putTrain 0 (trainL\<lparr>position := 51 / 100\<rparr>) gameL)"
    by (simp add: moveTrain_def terminalGuard_def lineLM_fields trainL_fields normsLM
        checkCrossing_def noCrossL loopPlace_def Let_def)
  then show ?thesis
    by (simp add: updateTrain_def gameLM_fields trainL_fields lineLM_fields Let_def)
qed

lemma moveM30:
  "updateTrain 30 0 gameM = Inr (putTrain 0 (trainL\<lparr>position := 51 / 100\<rparr>) gameM)"
proof -
  have "moveTrain gameM 0 trainL lineM [mkStation 0 0 0 False False, mkStation 1 300 0 False False] 30
        = Inr (putTrain 0 (trainL\<lparr>position := 51 / 100\<rparr>) gameM)"
    by (simp add: moveTrain_def terminalGuard_def lineLM_fields trainL_fields normsLM
        checkCrossing_def noCrossM clampMove_def crossEps_def Let_def)
  then show ?thesis
    by (simp add: updateTrain_def gameLM_fields trainL_fields lineLM_fields Let_def)
qed

theorem position_in_range_witness:
  "(\<exists>g' tr'. updateTrain 30 0 gameM = Inr g' \<and> trainAt g' 0 = Some tr' \<and>
       0 \<le> position tr' \<and> position tr' \<le> 1) \<and>
   (\<exists>g' tr'. updateTrain 30 0 gameL = Inr g' \<and> trainAt g' 0 = Some tr' \<and>
       \<bar>tickStep trainL lineL 30\<bar> < 1 \<and> 0 \<le> position tr' \<and> position tr' < 1)"
proof -
  have r: "0 \<le> position trainL" "position trainL \<le> 1" by (simp_all add: trainL_fields)
  have lM: "lineAt gameM (lineId trainL) = Some lineM" and lL: "lineAt gameL (lineId trainL) = Some lineL"
    by (simp_all add: trainL_fields gameLM_fields)
  have step: "\<bar>tickStep trainL lineL 30\<bar> < 1"
    by (simp add: tickStep_def trainL_fields lineLM_fields)
  from position_in_range [OF moveM30 gameLM_fields(3) lM r]
  have 1: "\<exists>g' tr'. updateTrain 30 0 gameM = Inr g' \<and> trainAt g' 0 = Some tr' \<and>
       0 \<le> position tr' \<and> position tr' \<le> 1"
    using moveM30 lineLM_fields by auto
  from position_in_range [OF moveL30 gameLM_fields(1) lL r]
  have "\<exists>tr'. trainAt (putTrain 0 (trainL\<lparr>position := 51 / 100\<rparr>) gameL) 0 = Some tr' \<and>
        0 \<le> position tr' \<and> position tr' \<le> 1"
    using lineLM_fields step by auto
  then have 2: "\<exists>g' tr'. updateTrain 30 0 gameL = Inr g' \<and> trainAt g' 0 = Some tr' \<and>
       \<bar>tickStep trainL lineL 30\<bar> < 1 \<and> 0 \<le> position tr' \<and> position tr' < 1"
    using moveL30 step by (auto simp: trainAt_def putTrain_def gameL_def mkGame_def)
  show ?thesis by (rule conjI [OF 1 2])
qed

section \<open>ETA estimator: minimum over walks\<close>

lemma xless_irrefl: "\<not> xless a a"
  by (cases a) simp_all

lemma xle_refl: "xle a a"
  by (cases a) (simp_all add: xle_def)

lemma xle_trans: "xle a b \<Longrightarrow> xle b c \<Longrightarrow> xle a c"
  by (cases a; cases b; cases c) (simp_all add: xle_def)

lemma xle_PInf: "xle a PInf"
  by (cases a) (simp_all add: xle_def)

lemma xle_PInf_left: "xle PInf a \<Longrightarrow> a = PInf"
  by (cases a) (simp_all add: xle_def)

lemma xle_Fin: "xle (Fin a) (Fin b) = (a \<le> b)"
  by (auto simp: xle_def)

lemma xless_xle: "xless a b \<Longrightarrow> xle a b"
  by (cases a; cases b) (simp_all add: xle_def)

lemma xle_total: "xle a b \<or> xle b a"
  by (cases a; cases b) (auto simp: xle_def)

lemma xadd_mono: "xle a b \<Longrightarrow> xle (xadd c a) (xadd c b)"
  by (cases a; cases b; cases c) (simp_all add: xle_def)

lemma xadd_increasing: "xle (Fin 0) c \<Longrightarrow> xle a (xadd c a)"
  by (cases a; cases c) (simp_all add: xle_def)

lemma xadd_nonneg: "xle (Fin 0) a \<Longrightarrow> xle (Fin 0) b \<Longrightarrow> xle (Fin 0) (xadd a b)"
  by (cases a; cases b) (simp_all add: xle_def)

lemma xadd_Fin_left: "xadd a b = Fin c \<Longrightarrow> \<exists>x y. a = Fin x \<and> b = Fin y \<and> c = x + y"
  by (cases a; cases b) auto

lemma set_setAdd:
  assumes "a < length adj"
  shows "set (setAdd a b adj ! x) = (if x = a then insert b (set (adj ! a)) else set (adj ! x))"
  using assms by (auto simp: setAdd_def)

lemma length_setAdd: "length (setAdd a b adj) = length adj"
  by (simp add: setAdd_def)

lemma addEdge_char:
  assumes "addEdge a b adj = Inr adj'"
  shows "a < length adj \<and> b < length adj \<and> length adj' = length adj \<and>
         (\<forall>x. set (adj' ! x) = set (adj ! x) \<union> (if x = a then {b} else {}) \<union> (if x = b then {a} else {}))"
proof -
  from assms have ab: "a < length adj" "b < length adj" and adj': "adj' = setAdd b a (setAdd a b adj)"
    by (auto simp: addEdge_def split: if_splits)
  have "set (adj' ! x) = set (adj ! x) \<union> (if x = a then {b} else {}) \<union> (if x = b then {a} else {})" for x
    unfolding adj' using ab by (simp add: set_setAdd length_setAdd)
  then show ?thesis using ab by (simp add: adj' length_setAdd)
qed

lemma addEdges_char:
  assumes "addEdges es adj = Inr adj'"
  shows "length adj' = length adj \<and>
         (\<forall>(a, b)\<in>set es. a < length adj \<and> b < length adj) \<and>
         (\<forall>x. set (adj' ! x) = set (adj ! x) \<union> {v. (x, v) \<in> set es \<or> (v, x) \<in> set es})"
  using assms
proof (induction es arbitrary: adj)
  case Nil
  then show ?case by simp
next
  case (Cons e es)
  obtain a b where e: "e = (a, b)" by (cases e)
  from Cons.prems obtain adj1 where a1: "addEdge a b adj = Inr adj1" and r: "addEdges es adj1 = Inr adj'"
    by (auto simp: e split: sum.splits)
  note c1 = addEdge_char [OF a1]
  note ih = Cons.IH [OF r]
  have len: "length adj' = length adj" using c1 ih by simp
  have rng: "\<forall>(a, b)\<in>set (e # es). a < length adj \<and> b < length adj"
    using c1 ih by (auto simp: e)
  have "set (adj' ! x) = set (adj ! x) \<union> {v. (x, v) \<in> set (e # es) \<or> (v, x) \<in> set (e # es)}" for x
  proof -
    have "set (adj' ! x) = set (adj1 ! x) \<union> {v. (x, v) \<in> set es \<or> (v, x) \<in> set es}"
      using ih by blast
    also have "set (adj1 ! x) = set (adj ! x) \<union> (if x = a then {b} else {}) \<union> (if x = b then {a} else {})"
      using c1 by blast
    finally show ?thesis by (auto simp: e)
  qed
  then show ?case using len rng by blast
qed

lemma buildStationGraph_good:
  assumes "buildStationGraph g = Inr adj"
  shows "length adj = length (stations g) \<and> goodAdj g adj"
proof -
  note c = addEdges_char [OF assms [unfolded buildStationGraph_def]]
  have len: "length adj = length (stations g)" using c by simp
  have rng: "(a, b) \<in> set (graphEdges g) \<Longrightarrow> a < length adj \<and> b < length adj" for a b
    using c by auto
  have adj: "set (adj ! x) = {v. hasEdge g x v}" if "x < length adj" for x
    using c that by (simp add: hasEdge_def)
  have sym: "hasEdge g a b = hasEdge g b a" for a b by (auto simp: hasEdge_def)
  have e: "hasEdge g a b \<Longrightarrow> a < length adj \<and> b < length adj" for a b
    using rng by (auto simp: hasEdge_def)
  have one: "v < length adj \<and> hasEdge g v u" if "u < length adj" "v \<in> set (adj ! u)" for u v
    using adj [OF that(1)] that(2) e [of u v] sym [of u v] by simp
  have two: "a < length adj \<and> b < length adj \<and> a \<in> set (adj ! b)" if "hasEdge g a b" for a b
    using e [OF that] adj [of b] sym [of a b] that by simp
  show ?thesis unfolding goodAdj_def using len one two by blast
qed

lemma effectiveSpeed_pos: "0 < effectiveSpeed g"
  by (simp add: effectiveSpeed_def max_def)

lemma edgeTimeMs_nonneg: "xle (Fin 0) (edgeTimeMs g a b)"
proof (cases "stationAt g a")
  case None
  then show ?thesis by (simp add: edgeTimeMs_def xle_PInf)
next
  case A: (Some A)
  show ?thesis
  proof (cases "stationAt g b")
    case None
    then show ?thesis using A by (simp add: edgeTimeMs_def xle_PInf)
  next
    case (Some B)
    have "0 \<le> hypot (sx B - sx A) (sy B - sy A) / effectiveSpeed g"
      using hypot_nonneg effectiveSpeed_pos [of g] by simp
    then show ?thesis using A Some by (simp add: edgeTimeMs_def xle_Fin)
  qed
qed

lemma hopCost_nonneg:
  assumes "0 \<le> nodeTransferMs g u destIdx"
  shows "xle (Fin 0) (hopCost g destIdx v u)"
  unfolding hopCost_def
  by (rule xadd_nonneg [OF edgeTimeMs_nonneg]) (simp add: xle_Fin assms)

lemma relax_hop:
  "relax g destIdx u v eta =
     (if v < length eta \<and> xless (xadd (hopCost g destIdx v u) (eta ! u)) (eta ! v)
      then eta[v := xadd (hopCost g destIdx v u) (eta ! u)] else eta)"
  by (simp add: relax_def hopCost_def Let_def)

lemma select_fold_inv:
  assumes "length eta = length visited"
  shows "k \<le> length visited \<Longrightarrow>
    (case fold (selectStep eta visited) [0..<k] (None, PInf) of
       (None, best) \<Rightarrow> best = PInf \<and> (\<forall>i<k. \<not> visited ! i \<longrightarrow> eta ! i = PInf)
     | (Some u, best) \<Rightarrow> u < k \<and> \<not> visited ! u \<and> best = eta ! u \<and> xless best PInf \<and>
                          (\<forall>i<k. \<not> visited ! i \<longrightarrow> xle best (eta ! i)))"
proof (induction k)
  case 0
  then show ?case by simp
next
  case (Suc k)
  obtain u best where ub: "fold (selectStep eta visited) [0..<k] (None, PInf) = (u, best)"
    by (cases "fold (selectStep eta visited) [0..<k] (None, PInf)")
  have k: "k < length eta" using Suc.prems assms by simp
  have ih: "case (u, best) of
       (None, best) \<Rightarrow> best = PInf \<and> (\<forall>i<k. \<not> visited ! i \<longrightarrow> eta ! i = PInf)
     | (Some u, best) \<Rightarrow> u < k \<and> \<not> visited ! u \<and> best = eta ! u \<and> xless best PInf \<and>
                          (\<forall>i<k. \<not> visited ! i \<longrightarrow> xle best (eta ! i))"
    using Suc.IH Suc.prems ub by simp
  have step: "fold (selectStep eta visited) [0..<Suc k] (None, PInf) = selectStep eta visited k (u, best)"
    using ub by simp
  show ?case
  proof (cases "\<not> visited ! k \<and> xless (eta ! k) best")
    case True
    have s: "selectStep eta visited k (u, best) = (Some k, eta ! k)"
      using True k by (simp add: selectStep_def)
    have fin: "xless (eta ! k) PInf" using True by (cases "eta ! k"; cases best) simp_all
    have "xle (eta ! k) (eta ! i)" if "i < Suc k" "\<not> visited ! i" for i
    proof (cases "i = k")
      case True
      then show ?thesis by (simp add: xle_refl)
    next
      case False
      then have ik: "i < k" using that by simp
      show ?thesis
      proof (cases u)
        case None
        then have "eta ! i = PInf" using ih ik that by simp
        then show ?thesis by (simp add: xle_PInf)
      next
        case (Some u')
        then have "xle best (eta ! i)" using ih ik that by auto
        then show ?thesis using True xless_xle xle_trans by blast
      qed
    qed
    then show ?thesis unfolding step s using True fin by simp
  next
    case False
    have s: "selectStep eta visited k (u, best) = (u, best)"
      using False by (auto simp: selectStep_def)
    show ?thesis
    proof (cases u)
      case None
      then have b: "best = PInf" and all: "\<forall>i<k. \<not> visited ! i \<longrightarrow> eta ! i = PInf"
        using ih by simp_all
      have "eta ! k = PInf" if "\<not> visited ! k"
        using False that b by (cases "eta ! k") simp_all
      then have "\<forall>i<Suc k. \<not> visited ! i \<longrightarrow> eta ! i = PInf"
        using all by (auto simp: less_Suc_eq)
      then show ?thesis unfolding step s using None b by simp
    next
      case (Some u')
      then have f: "u' < k" "\<not> visited ! u'" "best = eta ! u'" "xless best PInf"
        and all: "\<forall>i<k. \<not> visited ! i \<longrightarrow> xle best (eta ! i)"
        using ih by auto
      have "xle best (eta ! k)" if "\<not> visited ! k"
        using False that by (simp add: xle_def)
      then have "\<forall>i<Suc k. \<not> visited ! i \<longrightarrow> xle best (eta ! i)"
        using all by (auto simp: less_Suc_eq)
      then show ?thesis unfolding step s using Some f by simp
    qed
  qed
qed

lemma selectMin_None:
  assumes "length eta = length visited" "selectMin eta visited = None"
    "i < length visited" "\<not> visited ! i"
  shows "eta ! i = PInf"
proof -
  obtain u best where ub: "fold (selectStep eta visited) [0..<length visited] (None, PInf) = (u, best)"
    by (cases "fold (selectStep eta visited) [0..<length visited] (None, PInf)")
  then have "u = None" using assms(2) by (simp add: selectMin_def)
  then show ?thesis
    using select_fold_inv [OF assms(1), of "length visited"] ub assms(3,4) by simp
qed

lemma selectMin_Some:
  assumes "length eta = length visited" "selectMin eta visited = Some u"
  shows "u < length visited \<and> \<not> visited ! u \<and> xless (eta ! u) PInf \<and>
         (\<forall>i<length visited. \<not> visited ! i \<longrightarrow> xle (eta ! u) (eta ! i))"
proof -
  obtain u' best where ub: "fold (selectStep eta visited) [0..<length visited] (None, PInf) = (u', best)"
    by (cases "fold (selectStep eta visited) [0..<length visited] (None, PInf)")
  then have "u' = Some u" using assms(2) by (simp add: selectMin_def)
  then show ?thesis
    using select_fold_inv [OF assms(1), of "length visited"] ub by auto
qed

lemma fold_relax:
  assumes "u < length eta" "xle (eta ! u) (xadd (hopCost g destIdx u u) (eta ! u))"
  shows "length (fold (relax g destIdx u) vs eta) = length eta \<and>
         fold (relax g destIdx u) vs eta ! u = eta ! u \<and>
         (\<forall>x<length eta. fold (relax g destIdx u) vs eta ! x =
            (if x \<in> set vs \<and> xless (xadd (hopCost g destIdx x u) (eta ! u)) (eta ! x)
             then xadd (hopCost g destIdx x u) (eta ! u) else eta ! x))"
  using assms
proof (induction vs arbitrary: eta)
  case Nil
  then show ?case by simp
next
  case (Cons v vs)
  let ?alt = "\<lambda>x. xadd (hopCost g destIdx x u) (eta ! u)"
  let ?eta1 = "relax g destIdx u v eta"
  have len1: "length ?eta1 = length eta" by (simp add: relax_hop)
  have u1: "?eta1 ! u = eta ! u"
    using Cons.prems by (auto simp: relax_hop xle_def nth_list_update)
  have x1: "?eta1 ! x = (if x = v \<and> xless (?alt v) (eta ! v) then ?alt v else eta ! x)"
    if "x < length eta" for x
    using that by (auto simp: relax_hop nth_list_update)
  have p1: "u < length ?eta1" using Cons.prems len1 by simp
  have p2: "xle (?eta1 ! u) (xadd (hopCost g destIdx u u) (?eta1 ! u))"
    using Cons.prems u1 by simp
  note ih = Cons.IH [OF p1 p2]
  have irr: "\<not> xless a a" for a by (cases a) simp_all
  have "fold (relax g destIdx u) (v # vs) eta ! x =
            (if x \<in> set (v # vs) \<and> xless (?alt x) (eta ! x) then ?alt x else eta ! x)"
    if "x < length eta" for x
  proof -
    have "fold (relax g destIdx u) (v # vs) eta ! x =
          (if x \<in> set vs \<and> xless (?alt x) (?eta1 ! x) then ?alt x else ?eta1 ! x)"
      using ih that len1 u1 by simp
    then show ?thesis using x1 [OF that] irr by auto
  qed
  then show ?case using ih len1 u1 by simp
qed

lemma dinvD:
  assumes "dinv g destIdx adj eta visited"
  shows "length eta = length adj" "length visited = length adj" "destIdx < length adj"
    "eta ! destIdx = Fin 0"
    "\<And>v. v < length adj \<Longrightarrow> xle (Fin 0) (eta ! v)"
    "\<And>v c. v < length adj \<Longrightarrow> eta ! v = Fin c \<Longrightarrow>
        \<exists>p. walkFrom g v destIdx p \<and> walkCost g destIdx p = Fin c"
    "\<And>u v. u < length adj \<Longrightarrow> visited ! u \<Longrightarrow> v \<in> set (adj ! u) \<Longrightarrow>
        xle (eta ! v) (xadd (hopCost g destIdx v u) (eta ! u))"
    "\<And>u v. u < length adj \<Longrightarrow> v < length adj \<Longrightarrow> visited ! u \<Longrightarrow> \<not> visited ! v \<Longrightarrow>
        xle (eta ! u) (eta ! v)"
  using assms unfolding dinv_def by blast+

lemma goodAdjD:
  assumes "goodAdj g adj"
  shows "\<And>u v. u < length adj \<Longrightarrow> v \<in> set (adj ! u) \<Longrightarrow> v < length adj \<and> hasEdge g v u"
    "\<And>a b. hasEdge g a b \<Longrightarrow> a < length adj \<and> b < length adj \<and> a \<in> set (adj ! b)"
  using assms unfolding goodAdj_def by blast+

lemma walk_cons:
  assumes "walkFrom g u destIdx p" "hasEdge g v u"
  shows "walkFrom g v destIdx (v # p) \<and>
         walkCost g destIdx (v # p) = xadd (hopCost g destIdx v u) (walkCost g destIdx p)"
proof -
  from assms(1) obtain rest where p: "p = u # rest"
    by (cases p) (auto simp: walkFrom_def)
  show ?thesis using assms by (simp add: p walkFrom_def)
qed

lemma dinv_init:
  assumes "length adj = N" "destIdx < N"
  shows "dinv g destIdx adj ((replicate N PInf)[destIdx := Fin 0]) (replicate N False)"
proof -
  let ?eta = "(replicate N PInf)[destIdx := Fin 0]"
  have nth: "?eta ! v = (if v = destIdx then Fin 0 else PInf)" if "v < N" for v
    using that assms(2) by (simp add: nth_list_update)
  have w: "walkFrom g destIdx destIdx [destIdx] \<and> walkCost g destIdx [destIdx] = Fin 0"
    by (simp add: walkFrom_def)
  have s: "\<exists>p. walkFrom g v destIdx p \<and> walkCost g destIdx p = Fin c"
    if "v < N" "?eta ! v = Fin c" for v c
  proof -
    have "v = destIdx \<and> c = 0" using nth [OF that(1)] that(2) by (auto split: if_splits)
    then show ?thesis using w by blast
  qed
  have nn: "xle (Fin 0) (?eta ! v)" if "v < N" for v
    using nth [OF that] by (simp add: xle_refl xle_PInf)
  show ?thesis
    unfolding dinv_def using assms nth nn s by simp
qed

lemma dinv_step:
  assumes inv: "dinv g destIdx adj eta visited"
    and good: "goodAdj g adj"
    and nonneg: "\<And>u. u < length adj \<Longrightarrow> 0 \<le> nodeTransferMs g u destIdx"
    and sel: "selectMin eta visited = Some u"
  shows "dinv g destIdx adj (fold (relax g destIdx u) (adj ! u) eta) (visited[u := True])"
proof -
  let ?N = "length adj"
  let ?eta' = "fold (relax g destIdx u) (adj ! u) eta"
  let ?alt = "\<lambda>x. xadd (hopCost g destIdx x u) (eta ! u)"
  note d = dinvD [OF inv]
  have lens: "length eta = length visited" using d(1,2) by simp
  from selectMin_Some [OF lens sel] have
    u: "u < ?N" and nu: "\<not> visited ! u" and fu: "xless (eta ! u) PInf"
    and minu: "\<And>i. i < ?N \<Longrightarrow> \<not> visited ! i \<Longrightarrow> xle (eta ! u) (eta ! i)"
    using d(2) by auto
  have hop: "xle (Fin 0) (hopCost g destIdx v u)" for v
    by (rule hopCost_nonneg [OF nonneg [OF u]])
  have ge_u: "xle (eta ! u) (?alt x)" for x
    by (rule xadd_increasing [OF hop])
  have ul: "u < length eta" using u d(1) by simp
  from fold_relax [OF ul ge_u, of "adj ! u"] have
    len': "length ?eta' = length eta" and u': "?eta' ! u = eta ! u"
    and nth': "\<And>x. x < ?N \<Longrightarrow> ?eta' ! x =
            (if x \<in> set (adj ! u) \<and> xless (?alt x) (eta ! x) then ?alt x else eta ! x)"
    using d(1) by auto
  have le: "xle (?eta' ! x) (eta ! x)" if "x < ?N" for x
    using nth' [OF that] by (auto simp: xle_refl xless_xle)
  have ge': "xle (eta ! u) (?eta' ! x)" if "x < ?N" "\<not> visited ! x" for x
    using nth' [OF that(1)] ge_u [of x] minu [OF that] by auto
  have below_u: "xle (eta ! x) (eta ! u)" if "x < ?N" "visited ! x" for x
    by (rule d(8) [OF that(1) u that(2) nu])
  have vis_same: "?eta' ! x = eta ! x" if "x < ?N" "visited ! x" for x
  proof -
    have "xle (eta ! x) (?alt x)" using xle_trans [OF below_u [OF that] ge_u] .
    then have "\<not> xless (?alt x) (eta ! x)" by (simp add: xle_def)
    then show ?thesis using nth' [OF that(1)] by simp
  qed
  have same': "?eta' ! x = eta ! x" if "x < ?N" "(visited[u := True]) ! x" for x
  proof (cases "x = u")
    case True
    then show ?thesis using u' by simp
  next
    case False
    then have "visited ! x" using that(2) by simp
    then show ?thesis using vis_same that(1) by simp
  qed
  have i1: "?eta' ! destIdx = Fin 0"
  proof -
    have "xle (Fin 0) (?alt destIdx)" using xle_trans [OF d(5) [OF u] ge_u] .
    then have "\<not> xless (?alt destIdx) (eta ! destIdx)" by (simp add: xle_def d(4))
    then show ?thesis using nth' [OF d(3)] d(4) by simp
  qed
  have i5: "xle (Fin 0) (?eta' ! v)" if "v < ?N" for v
    using nth' [OF that] d(5) [OF that] xle_trans [OF d(5) [OF u] ge_u [of v]] by auto
  have i6: "\<exists>p. walkFrom g v destIdx p \<and> walkCost g destIdx p = Fin c"
    if v: "v < ?N" and c: "?eta' ! v = Fin c" for v c
  proof (cases "v \<in> set (adj ! u) \<and> xless (?alt v) (eta ! v)")
    case False
    from False have "?eta' ! v = eta ! v" by (subst nth' [OF v]) (rule if_not_P)
    then have "eta ! v = Fin c" using c by simp
    then show ?thesis by (rule d(6) [OF v])
  next
    case True
    from True have "?eta' ! v = ?alt v" by (subst nth' [OF v]) (rule if_P)
    then have a: "?alt v = Fin c" using c by simp
    from xadd_Fin_left [OF a] obtain y where y: "eta ! u = Fin y" by blast
    from d(6) [OF u y] obtain p where p: "walkFrom g u destIdx p" "walkCost g destIdx p = Fin y"
      by blast
    have e: "hasEdge g v u" using goodAdjD(1) [OF good u] True by blast
    from walk_cons [OF p(1) e] have "walkFrom g v destIdx (v # p)"
      and "walkCost g destIdx (v # p) = Fin c" using a p(2) y by simp_all
    then show ?thesis by blast
  qed
  have i7: "xle (?eta' ! v) (xadd (hopCost g destIdx v x) (?eta' ! x))"
    if x: "x < ?N" and vx: "(visited[u := True]) ! x" and v: "v \<in> set (adj ! x)" for x v
  proof -
    have vN: "v < ?N" using goodAdjD(1) [OF good x v] by simp
    show ?thesis
    proof (cases "x = u")
      case True
      have "xle (?eta' ! v) (?alt v)"
        using nth' [OF vN] v True by (auto simp: xle_def xless_irrefl)
      then show ?thesis using True u' by simp
    next
      case False
      then have vis: "visited ! x" using vx by simp
      have "xle (?eta' ! v) (eta ! v)" by (rule le [OF vN])
      also have "xle (eta ! v) (xadd (hopCost g destIdx v x) (eta ! x))"
        by (rule d(7) [OF x vis v])
      finally (xle_trans) show ?thesis using vis_same [OF x vis] by simp
    qed
  qed
  have i8: "xle (?eta' ! x) (?eta' ! y)"
    if x: "x < ?N" and y: "y < ?N" and vx: "(visited[u := True]) ! x"
      and vy: "\<not> (visited[u := True]) ! y" for x y
  proof -
    have yu: "y \<noteq> u" using vy u d(2) by auto
    then have ny: "\<not> visited ! y" using vy by simp
    have "xle (eta ! x) (eta ! u)"
    proof (cases "x = u")
      case True
      then show ?thesis by (simp add: xle_refl)
    next
      case False
      then have "visited ! x" using vx by simp
      then show ?thesis by (rule below_u [OF x])
    qed
    then have "xle (eta ! x) (?eta' ! y)" using ge' [OF y ny] xle_trans by blast
    then show ?thesis using same' [OF x vx] by simp
  qed
  show ?thesis
    unfolding dinv_def
    apply (intro conjI allI impI ballI)
           apply (simp add: len' d(1))
          apply (simp add: d(2))
         apply (rule d(3))
        apply (rule i1)
       apply (erule i5)
      apply (erule (1) i6)
     apply (erule (2) i7)
    apply (erule (3) i8)
    done
qed

lemma dijkstraLoop_inv:
  assumes "goodAdj g adj" "\<forall>u<length adj. 0 \<le> nodeTransferMs g u destIdx"
    "dinv g destIdx adj eta visited"
  shows "\<exists>visited'. dinv g destIdx adj (dijkstraLoop g destIdx adj eta visited) visited' \<and>
           (\<forall>i<length adj. \<not> visited' ! i \<longrightarrow> dijkstraLoop g destIdx adj eta visited ! i = PInf)"
  using assms
proof (induction g destIdx adj eta visited rule: dijkstraLoop.induct)
  case (1 g destIdx adj eta visited)
  note d = dinvD [OF "1.prems"(3)]
  have lens: "length eta = length visited" using d(1,2) by simp
  show ?case
  proof (cases "selectMin eta visited")
    case None
    have r: "dijkstraLoop g destIdx adj eta visited = eta"
      by (subst dijkstraLoop.simps) (simp add: None)
    have "\<forall>i<length adj. \<not> visited ! i \<longrightarrow> eta ! i = PInf"
      using selectMin_None [OF lens None] d(2) by simp
    then show ?thesis unfolding r using "1.prems"(3) by blast
  next
    case (Some u)
    have r: "dijkstraLoop g destIdx adj eta visited =
             dijkstraLoop g destIdx adj (fold (relax g destIdx u) (adj ! u) eta) (visited[u := True])"
      by (subst dijkstraLoop.simps) (simp add: Some)
    have nn: "\<And>u. u < length adj \<Longrightarrow> 0 \<le> nodeTransferMs g u destIdx"
      using "1.prems"(2) by simp
    have "dinv g destIdx adj (fold (relax g destIdx u) (adj ! u) eta) (visited[u := True])"
      by (rule dinv_step [OF "1.prems"(3) "1.prems"(1) nn Some])
    from "1.IH" [OF Some "1.prems"(1) "1.prems"(2) this] show ?thesis unfolding r .
  qed
qed

lemma walk_lower_bound:
  assumes inv: "dinv g destIdx adj eta visited"
    and good: "goodAdj g adj"
    and unv: "\<forall>i<length adj. \<not> visited ! i \<longrightarrow> eta ! i = PInf"
  shows "walkFrom g s destIdx p \<Longrightarrow> xle (eta ! s) (walkCost g destIdx p)"
proof (induction p arbitrary: s)
  case Nil
  then show ?case by (simp add: walkFrom_def)
next
  case (Cons a p)
  note d = dinvD [OF inv]
  have sa: "s = a" using Cons.prems by (simp add: walkFrom_def)
  show ?case
  proof (cases p)
    case Nil
    then have "s = destIdx" using Cons.prems by (simp add: walkFrom_def)
    then show ?thesis using Nil d(4) by (simp add: xle_refl)
  next
    case (Cons b rest)
    have e: "hasEdge g a b" and w: "walkFrom g b destIdx p"
      using Cons.prems Cons by (auto simp: walkFrom_def)
    have ih: "xle (eta ! b) (walkCost g destIdx p)" by (rule Cons.IH [OF w])
    from goodAdjD(2) [OF good e] have b: "b < length adj" and ab: "a \<in> set (adj ! b)" by simp_all
    have c: "walkCost g destIdx (a # p) = xadd (hopCost g destIdx a b) (walkCost g destIdx p)"
      by (simp add: Cons)
    show ?thesis
    proof (cases "visited ! b")
      case True
      have "xle (eta ! a) (xadd (hopCost g destIdx a b) (eta ! b))" by (rule d(7) [OF b True ab])
      also have "xle (xadd (hopCost g destIdx a b) (eta ! b))
                     (xadd (hopCost g destIdx a b) (walkCost g destIdx p))"
        by (rule xadd_mono [OF ih])
      finally (xle_trans) show ?thesis unfolding sa c .
    next
      case False
      then have "eta ! b = PInf" using unv b by simp
      then have "walkCost g destIdx p = PInf" using ih xle_PInf_left by simp
      then have "walkCost g destIdx (a # p) = PInf"
        unfolding c by (cases "hopCost g destIdx a b") simp_all
      then show ?thesis by (simp add: xle_PInf)
    qed
  qed
qed

text \<open>
  The estimate against the cost computed from \<open>edgeTimeMs\<close> and \<open>nodeTransferMs\<close>.
\<close>

lemma computeETAs_walkCost:
  assumes "computeETAs g destIdx = Inr etas"
    and "destIdx < length (stations g)"
    and "\<forall>u<length (stations g). 0 \<le> nodeTransferMs g u destIdx"
    and "s < length (stations g)"
  shows "length etas = length (stations g) \<and>
         (\<exists>e. etas ! s = Some e \<and>
            (\<forall>p. walkFrom g s destIdx p \<longrightarrow> xle e (walkCost g destIdx p)) \<and>
            ((\<exists>p. walkFrom g s destIdx p) \<longrightarrow>
               (\<exists>p. walkFrom g s destIdx p \<and> walkCost g destIdx p = e)) \<and>
            ((\<nexists>p. walkFrom g s destIdx p) \<longrightarrow> e = PInf))"
proof -
  let ?N = "length (stations g)"
  from assms(1) obtain adj where adj: "buildStationGraph g = Inr adj"
    by (auto simp: computeETAs_def Let_def split: sum.splits)
  let ?eta0 = "(replicate ?N PInf)[destIdx := Fin 0]"
  let ?res = "dijkstraLoop g destIdx adj ?eta0 (replicate ?N False)"
  have etas: "etas = map Some ?res"
    using assms(1,2) adj by (simp add: computeETAs_def Let_def)
  from buildStationGraph_good [OF adj] have len: "length adj = ?N" and good: "goodAdj g adj"
    by simp_all
  have nn: "\<forall>u<length adj. 0 \<le> nodeTransferMs g u destIdx" using assms(3) len by simp
  from dijkstraLoop_inv [OF good nn dinv_init [OF len assms(2)]] obtain visited where
    inv: "dinv g destIdx adj ?res visited"
    and fin: "\<forall>i<length adj. \<not> visited ! i \<longrightarrow> ?res ! i = PInf"
    by blast
  note d = dinvD [OF inv]
  have s: "s < length ?res" using assms(4) d(1) len by simp
  have l: "length etas = ?N" using d(1) len by (simp add: etas)
  have e: "etas ! s = Some (?res ! s)" using s by (simp add: etas)
  have lower: "xle (?res ! s) (walkCost g destIdx p)" if "walkFrom g s destIdx p" for p
    using that by (rule walk_lower_bound [OF inv good fin])
  have sound: "\<exists>p. walkFrom g s destIdx p \<and> walkCost g destIdx p = Fin c" if "?res ! s = Fin c" for c
    using d(6) [of s c] that assms(4) len by simp
  have attained: "\<exists>p. walkFrom g s destIdx p \<and> walkCost g destIdx p = ?res ! s"
    if "walkFrom g s destIdx q" for q
  proof (cases "?res ! s")
    case (Fin c)
    then show ?thesis using sound by simp
  next
    case PInf
    then have "walkCost g destIdx q = PInf" using lower [OF that] xle_PInf_left by simp
    then show ?thesis using that PInf by auto
  qed
  have none: "?res ! s = PInf" if "\<nexists>p. walkFrom g s destIdx p"
    using sound that by (cases "?res ! s") auto
  show ?thesis using l e lower attained none by blast
qed

text \<open>
  The summands of the source are those of the specification as amended.
\<close>

lemma effectiveSpeed_spec: "effectiveSpeed g = specSpeed g"
  by (simp add: effectiveSpeed_def specSpeed_def or_default_def)

lemma edgeTimeMs_spec: "edgeTimeMs g a b = specEdgeTime g a b"
  by (simp add: edgeTimeMs_def specEdgeTime_def hypot_def effectiveSpeed_spec power2_eq_square
      split: option.splits)

lemma nodeTransferMs_spec: "nodeTransferMs g u destIdx = specPenalty g destIdx u"
  by (simp add: nodeTransferMs_def specPenalty_def stationMct_def nullish_def or_default_def
      interchangeFactor_def split: option.splits)

lemma walkCost_spec: "walkCost g destIdx p = specWalkCost g destIdx p"
  by (induction g destIdx p rule: specWalkCost.induct)
     (simp_all add: hopCost_def edgeTimeMs_spec nodeTransferMs_spec)

text \<open>
  Claim C1, as amended. A walk from \<open>s\<close> to \<open>destIdx\<close> is a station sequence whose
  consecutive pairs are consecutive on some line, in either direction. Its cost is
  the sum over its hops \<open>v \<rightarrow> u\<close> of the edge time, the distance between the two
  stations divided by the configured speed (0.06 when that is 0, never below
  \<open>1e-6\<close>; infinite when a station slot is empty), plus the penalty of the node
  reached when it is not the destination: its minimum-connection-time, times 0.7 at
  an interchange, times the global multiplier (1 when that is configured as 0).
  For a destination inside \<open>game.stations\<close>, when \<open>computeETAs\<close> returns (every line
  names existing slots) and no penalty is negative, the entry of every station \<open>s\<close>
  is a lower bound of the cost of every walk from \<open>s\<close> to the destination, it is the
  cost of one of them whenever there is one, and it is \<open>Infinity\<close> when there is
  none.
\<close>

theorem computeETAs_minimum:
  assumes "computeETAs g destIdx = Inr etas"
    and "destIdx < length (stations g)"
    and "\<forall>u<length (stations g). 0 \<le> specPenalty g destIdx u"
    and "s < length (stations g)"
  shows "length etas = length (stations g) \<and>
         (\<exists>e. etas ! s = Some e \<and>
            (\<forall>p. walkFrom g s destIdx p \<longrightarrow> xle e (specWalkCost g destIdx p)) \<and>
            ((\<exists>p. walkFrom g s destIdx p) \<longrightarrow>
               (\<exists>p. walkFrom g s destIdx p \<and> specWalkCost g destIdx p = e)) \<and>
            ((\<nexists>p. walkFrom g s destIdx p) \<longrightarrow> e = PInf))"
proof -
  have nn: "\<forall>u<length (stations g). 0 \<le> nodeTransferMs g u destIdx"
    using assms(3) by (simp add: nodeTransferMs_spec)
  from computeETAs_walkCost [OF assms(1,2) nn assms(4)] show ?thesis
    by (simp only: walkCost_spec)
qed

lemma stationsD:
  "stationAt gameD 0 = Some (mkStation 0 0 0 False False)"
  "stationAt gameD (Suc 0) = Some (mkStation 1 300 0 False False)"
  "stationAt gameD 2 = Some (mkStation 2 600 0 True False)"
  by (simp_all add: stationAt_def gameD_def mkGame_def)

lemma edgesD: "graphEdges gameD = [(0, 1), (1, 2), (0, 2)]"
  by (simp add: graphEdges_def gameD_def mkGame_def mkLine_def)

lemma graphD: "buildStationGraph gameD = Inr [[1, 2], [0, 2], [1, 0]]"
proof -
  have len: "length (stations gameD) = 3" by (simp add: gameD_def mkGame_def)
  show ?thesis
    by (simp add: buildStationGraph_def edgesD len addEdge_def setAdd_def numeral_3_eq_3)
qed

lemma speedD: "effectiveSpeed gameD = 1 / 10"
  by (simp add: effectiveSpeed_def or_default_def gameD_def mkGame_def cfg0_def)

lemma edgeD:
  "edgeTimeMs gameD 0 (Suc 0) = Fin 3000" "edgeTimeMs gameD (Suc 0) 0 = Fin 3000"
  "edgeTimeMs gameD (Suc 0) 2 = Fin 3000" "edgeTimeMs gameD 2 (Suc 0) = Fin 3000"
  "edgeTimeMs gameD 0 2 = Fin 6000" "edgeTimeMs gameD 2 0 = Fin 6000"
  by (simp_all add: edgeTimeMs_def stationsD speedD hypot_axis mkStation_def)

lemma transferD:
  "nodeTransferMs gameD 0 2 = 5000" "nodeTransferMs gameD (Suc 0) 2 = 5000"
  "nodeTransferMs gameD 2 2 = 0"
proof -
  have c: "cfg gameD = cfg0" by (simp add: gameD_def mkGame_def)
  show "nodeTransferMs gameD 0 2 = 5000" "nodeTransferMs gameD (Suc 0) 2 = 5000"
    "nodeTransferMs gameD 2 2 = 0"
    by (simp_all add: nodeTransferMs_def stationsD c)
       (simp_all add: mkStation_def nullish_def interchangeFactor_def or_default_def cfg0_def)
qed

lemma etasD: "computeETAs gameD 2 = Inr [Some (Fin 6000), Some (Fin 3000), Some (Fin 0)]"
proof -
  have len: "length (stations gameD) = 3" by (simp add: gameD_def mkGame_def)
  have s1: "selectMin [PInf, PInf, Fin 0] [False, False, False] = Some 2"
    by (simp add: selectMin_def selectStep_def upt_rec)
  have s2: "selectMin [Fin 6000, Fin 3000, Fin 0] [False, False, True] = Some 1"
    by (simp add: selectMin_def selectStep_def upt_rec)
  have s3: "selectMin [Fin 6000, Fin 3000, Fin 0] [False, True, True] = Some 0"
    by (simp add: selectMin_def selectStep_def upt_rec)
  have s4: "selectMin [Fin 6000, Fin 3000, Fin 0] [True, True, True] = None"
    by (simp add: selectMin_def selectStep_def upt_rec)
  have "dijkstraLoop gameD 2 [[1, 2], [0, 2], [1, 0]] [PInf, PInf, Fin 0] [False, False, False]
        = [Fin 6000, Fin 3000, Fin 0]"
    apply (subst dijkstraLoop.simps, simp add: s1 relax_def edgeD transferD)
    apply (subst dijkstraLoop.simps, simp add: s2 relax_def edgeD transferD)
    apply (subst dijkstraLoop.simps, simp add: s3 relax_def edgeD transferD)
    apply (subst dijkstraLoop.simps, simp add: s4)
    done
  then show ?thesis
    by (simp add: computeETAs_def graphD len numeral_3_eq_3)
qed

lemma nonnegD: "\<forall>u<length (stations gameD). 0 \<le> specPenalty gameD 2 u"
proof -
  have len: "length (stations gameD) = 3" by (simp add: gameD_def mkGame_def)
  have "u = 0 \<or> u = Suc 0 \<or> u = 2" if "u < 3" for u :: nat using that by arith
  then show ?thesis
    unfolding len nodeTransferMs_spec [symmetric] using transferD by fastforce
qed

lemma walksD:
  "walkFrom gameD 0 2 [0, 2]" "specWalkCost gameD 2 [0, 2] = Fin 6000"
  "walkFrom gameD 0 2 [0, Suc 0, 2]" "specWalkCost gameD 2 [0, Suc 0, 2] = Fin 11000"
  by (simp_all add: walkFrom_def hasEdge_def edgesD edgeTimeMs_spec [symmetric]
      nodeTransferMs_spec [symmetric] edgeD transferD)

theorem computeETAs_minimum_witness:
  "computeETAs gameD 2 = Inr [Some (Fin 6000), Some (Fin 3000), Some (Fin 0)] \<and>
   walkFrom gameD 0 2 [0, Suc 0, 2] \<and> specWalkCost gameD 2 [0, Suc 0, 2] = Fin 11000 \<and>
   xle (Fin 6000) (specWalkCost gameD 2 [0, Suc 0, 2]) \<and>
   (\<exists>p. walkFrom gameD 0 2 p \<and> specWalkCost gameD 2 p = Fin 6000)"
proof -
  have len: "length (stations gameD) = 3" by (simp add: gameD_def mkGame_def)
  have d: "2 < length (stations gameD)" and s: "0 < length (stations gameD)"
    by (simp_all add: len)
  from computeETAs_minimum [OF etasD d nonnegD s]
  have low: "\<forall>p. walkFrom gameD 0 2 p \<longrightarrow> xle (Fin 6000) (specWalkCost gameD 2 p)"
    and att: "(\<exists>p. walkFrom gameD 0 2 p) \<longrightarrow>
              (\<exists>p. walkFrom gameD 0 2 p \<and> specWalkCost gameD 2 p = Fin 6000)"
    by simp_all
  from low walksD(3) have "xle (Fin 6000) (specWalkCost gameD 2 [0, Suc 0, 2])" by blast
  moreover from att walksD(3) have "\<exists>p. walkFrom gameD 0 2 p \<and> specWalkCost gameD 2 p = Fin 6000"
    by blast
  ultimately show ?thesis using etasD walksD(3,4) by blast
qed

text \<open>
  With the multiplier configured as 0 the source charges the full
  minimum-connection-time (\<open>mctMultiplier || 1.0\<close>). On the line 0 - 1 - 2 the entry
  of station 0 for destination 2 is 3000 + 10000 + 3000, while the walk through
  station 1 costs 3000 + 0 + 3000 as the claim counts it.
\<close>

lemma stationsZ:
  "stationAt gameZ 0 = Some (mkStation 0 0 0 False False)"
  "stationAt gameZ (Suc 0) = Some (mkStation 1 300 0 False False)"
  "stationAt gameZ 2 = Some (mkStation 2 600 0 True False)"
  by (simp_all add: stationAt_def gameZ_def mkGame_def)

lemma cfgZ: "cfg gameZ = cfg0\<lparr>mctMultiplier := 0\<rparr>"
  by (simp add: gameZ_def)

lemma edgesZ: "graphEdges gameZ = [(0, 1), (1, 2)]"
  by (simp add: graphEdges_def gameZ_def mkGame_def mkLine_def)

lemma graphZ: "buildStationGraph gameZ = Inr [[1], [0, 2], [1]]"
proof -
  have len: "length (stations gameZ) = 3" by (simp add: gameZ_def mkGame_def)
  show ?thesis
    by (simp add: buildStationGraph_def edgesZ len addEdge_def setAdd_def numeral_3_eq_3)
qed

lemma speedZ: "effectiveSpeed gameZ = 1 / 10"
  by (simp add: effectiveSpeed_def or_default_def cfgZ cfg0_def)

lemma edgeZ:
  "edgeTimeMs gameZ 0 (Suc 0) = Fin 3000" "edgeTimeMs gameZ (Suc 0) 0 = Fin 3000"
  "edgeTimeMs gameZ (Suc 0) 2 = Fin 3000" "edgeTimeMs gameZ 2 (Suc 0) = Fin 3000"
  by (simp_all add: edgeTimeMs_def stationsZ speedZ hypot_axis mkStation_def)

lemma transferZ:
  "nodeTransferMs gameZ 0 2 = 10000" "nodeTransferMs gameZ (Suc 0) 2 = 10000"
  "nodeTransferMs gameZ 2 2 = 0"
  by (simp_all add: nodeTransferMs_def stationsZ cfgZ)
     (simp_all add: mkStation_def nullish_def interchangeFactor_def or_default_def cfg0_def)

lemma etasZ: "computeETAs gameZ 2 = Inr [Some (Fin 16000), Some (Fin 3000), Some (Fin 0)]"
proof -
  have len: "length (stations gameZ) = 3" by (simp add: gameZ_def mkGame_def)
  have s1: "selectMin [PInf, PInf, Fin 0] [False, False, False] = Some 2"
    by (simp add: selectMin_def selectStep_def upt_rec)
  have s2: "selectMin [PInf, Fin 3000, Fin 0] [False, False, True] = Some 1"
    by (simp add: selectMin_def selectStep_def upt_rec)
  have s3: "selectMin [Fin 16000, Fin 3000, Fin 0] [False, True, True] = Some 0"
    by (simp add: selectMin_def selectStep_def upt_rec)
  have s4: "selectMin [Fin 16000, Fin 3000, Fin 0] [True, True, True] = None"
    by (simp add: selectMin_def selectStep_def upt_rec)
  have "dijkstraLoop gameZ 2 [[1], [0, 2], [1]] [PInf, PInf, Fin 0] [False, False, False]
        = [Fin 16000, Fin 3000, Fin 0]"
    apply (subst dijkstraLoop.simps, simp add: s1 relax_def edgeZ transferZ)
    apply (subst dijkstraLoop.simps, simp add: s2 relax_def edgeZ transferZ)
    apply (subst dijkstraLoop.simps, simp add: s3 relax_def edgeZ transferZ)
    apply (subst dijkstraLoop.simps, simp add: s4)
    done
  then show ?thesis
    by (simp add: computeETAs_def graphZ len numeral_3_eq_3)
qed

theorem computeETAs_multiplier_counterexample:
  "computeETAs gameZ 2 = Inr [Some (Fin 16000), Some (Fin 3000), Some (Fin 0)] \<and>
   walkFrom gameZ 0 2 [0, Suc 0, 2] \<and>
   claimedWalkCost gameZ 2 [0, Suc 0, 2] = Fin 6000"
proof -
  have w: "walkFrom gameZ 0 2 [0, Suc 0, 2]"
    by (simp add: walkFrom_def hasEdge_def edgesZ)
  have e: "claimedEdgeTime gameZ 0 (Suc 0) = Fin 3000" "claimedEdgeTime gameZ (Suc 0) 2 = Fin 3000"
    by (simp_all add: claimedEdgeTime_def stationsZ cfgZ)
       (simp_all add: mkStation_def cfg0_def)
  have t: "claimedPenalty gameZ 2 (Suc 0) = 0" "claimedPenalty gameZ 2 2 = 0"
    by (simp_all add: claimedPenalty_def stationsZ cfgZ)
  have "claimedWalkCost gameZ 2 [0, Suc 0, 2] = Fin 6000" by (simp add: e t)
  then show ?thesis using etasZ w by simp
qed

text \<open>
  The hypothesis on the penalties cannot be dropped: with a negative
  minimum-connection-time at station 1 the entry of the destination itself is
  lowered to -4000, below the cost 0 of the empty walk.
\<close>

lemma negative_penalty_example:
  "computeETAs gameN 2 = Inr [Some (Fin (- 4000)), Some (Fin 3000), Some (Fin (- 4000))]"
proof -
  have len: "length (stations gameN) = 3" by (simp add: gameN_def mkGame_def)
  have st: "stationAt gameN 0 = Some (mkStation 0 0 0 False False)"
    "stationAt gameN (Suc 0) = Some ((mkStation 1 300 0 False False)\<lparr>mctMs := Some (- 20000)\<rparr>)"
    "stationAt gameN 2 = Some (mkStation 2 600 0 True False)"
    by (simp_all add: stationAt_def gameN_def mkGame_def)
  have c: "cfg gameN = cfg0" by (simp add: gameN_def mkGame_def)
  have g: "buildStationGraph gameN = Inr [[1], [0, 2], [1]]"
    by (simp add: buildStationGraph_def graphEdges_def gameN_def mkGame_def mkLine_def
        addEdge_def setAdd_def numeral_3_eq_3)
  have sp: "effectiveSpeed gameN = 1 / 10"
    by (simp add: effectiveSpeed_def or_default_def c cfg0_def)
  have e: "edgeTimeMs gameN 0 (Suc 0) = Fin 3000" "edgeTimeMs gameN (Suc 0) 0 = Fin 3000"
    "edgeTimeMs gameN (Suc 0) 2 = Fin 3000" "edgeTimeMs gameN 2 (Suc 0) = Fin 3000"
    by (simp_all add: edgeTimeMs_def st sp hypot_axis mkStation_def)
  have t: "nodeTransferMs gameN 0 2 = 5000" "nodeTransferMs gameN (Suc 0) 2 = - 10000"
    "nodeTransferMs gameN 2 2 = 0"
    by (simp_all add: nodeTransferMs_def st c)
       (simp_all add: mkStation_def nullish_def interchangeFactor_def or_default_def cfg0_def)
  have s1: "selectMin [PInf, PInf, Fin 0] [False, False, False] = Some 2"
    by (simp add: selectMin_def selectStep_def upt_rec)
  have s2: "selectMin [PInf, Fin 3000, Fin 0] [False, False, True] = Some 1"
    by (simp add: selectMin_def selectStep_def upt_rec)
  have s3: "selectMin [Fin (- 4000), Fin 3000, Fin (- 4000)] [False, True, True] = Some 0"
    by (simp add: selectMin_def selectStep_def upt_rec)
  have s4: "selectMin [Fin (- 4000), Fin 3000, Fin (- 4000)] [True, True, True] = None"
    by (simp add: selectMin_def selectStep_def upt_rec)
  have "dijkstraLoop gameN 2 [[1], [0, 2], [1]] [PInf, PInf, Fin 0] [False, False, False]
        = [Fin (- 4000), Fin 3000, Fin (- 4000)]"
    apply (subst dijkstraLoop.simps, simp add: s1 relax_def e t)
    apply (subst dijkstraLoop.simps, simp add: s2 relax_def e t Let_def)
    apply (subst dijkstraLoop.simps, simp add: s3 relax_def e t)
    apply (subst dijkstraLoop.simps, simp add: s4)
    done
  then show ?thesis
    by (simp add: computeETAs_def g len numeral_3_eq_3)
qed

section \<open>Grid router: endpoints of a routed path\<close>

lemma hexDistance_steps: "hexDistance a b = real_of_int (hexSteps a b) / 2"
  by (simp add: hexDistance_def hexSteps_def)

lemma hexSteps_nonneg: "0 \<le> hexSteps a b"
  by (simp add: hexSteps_def)

lemma hexSteps_triangle: "hexSteps a c \<le> hexSteps a b + hexSteps b c"
  unfolding hexSteps_def by linarith

lemma hexDistance_triangle: "hexDistance a c \<le> hexDistance a b + hexDistance b c"
proof -
  have "real_of_int (hexSteps a c) \<le> real_of_int (hexSteps a b + hexSteps b c)"
    using hexSteps_triangle [of a c b] by (simp only: of_int_le_iff)
  then show ?thesis by (simp add: hexDistance_steps)
qed

lemma hexDistance_nonneg: "0 \<le> hexDistance a b"
  using hexSteps_nonneg [of a b] by (simp add: hexDistance_steps)








lemma hexDistance_sym: "hexDistance a b = hexDistance b a"
  by (simp add: hexDistance_def abs_minus_commute)











lemma ainvD:
  assumes "ainv start goal st"
  shows "validCube start" "validCube goal" "inOpen st = set (openL st)" "distinct (openL st)"
    "gScore st start = Some 0" "came st start = None"
    "\<And>n v. gScore st n = Some v \<Longrightarrow> validCube n"
    "\<And>n v. gScore st n = Some v \<Longrightarrow> fScore st n = Some (v + hexDistance n goal)"
    "\<And>n v. gScore st n = Some v \<Longrightarrow> hexDistance start n \<le> v"
    "\<And>n v. gScore st n = Some v \<Longrightarrow> v \<in> \<nat>"
    "\<And>n. n \<in> set (openL st) \<Longrightarrow> gScore st n \<noteq> None"
    "\<And>c v. gScore st c = Some v \<Longrightarrow> c \<notin> set (openL st) \<Longrightarrow> c \<noteq> goal"
    "\<And>c v. gScore st c = Some v \<Longrightarrow> c \<notin> set (openL st) \<Longrightarrow>
        v + hexDistance c goal = hexDistance start goal"
    "\<And>c v nb. gScore st c = Some v \<Longrightarrow> c \<notin> set (openL st) \<Longrightarrow> nb \<in> set (getHexNeighbors c) \<Longrightarrow>
        \<exists>w. gScore st nb = Some w \<and> w \<le> v + 1"
    "\<And>n m. came st n = Some m \<Longrightarrow> \<exists>v w. gScore st n = Some v \<and> gScore st m = Some w \<and> w < v"
    "\<And>n. gScore st n \<noteq> None \<Longrightarrow> n \<noteq> start \<Longrightarrow> came st n \<noteq> None"
  using assms unfolding ainv_def by blast+







lemma closed_optimal:
  assumes inv: "ainv start goal st" and c: "gScore st c = Some v" "c \<notin> set (openL st)"
  shows "v = hexDistance start c"
proof -
  have "v + hexDistance c goal = hexDistance start goal" by (rule ainvD(13) [OF inv c])
  moreover have "hexDistance start goal \<le> hexDistance start c + hexDistance c goal"
    by (rule hexDistance_triangle)
  moreover have "hexDistance start c \<le> v" by (rule ainvD(9) [OF inv c(1)])
  ultimately show ?thesis by simp
qed


lemma closed_in_ball:
  assumes inv: "ainv start goal st"
  shows "closedSet st \<subseteq> {n. hexSteps start n \<le> hexSteps start goal}"
proof
  fix c assume "c \<in> closedSet st"
  then obtain v where c: "gScore st c = Some v" "c \<notin> set (openL st)" by (auto simp: closedSet_def)
  have "v = hexDistance start c" by (rule closed_optimal [OF inv c])
  moreover have "v + hexDistance c goal = hexDistance start goal" by (rule ainvD(13) [OF inv c])
  ultimately have "hexDistance start c \<le> hexDistance start goal"
    using hexDistance_nonneg [of c goal] by simp
  then show "c \<in> {n. hexSteps start n \<le> hexSteps start goal}" by (simp add: hexDistance_steps)
qed



















section \<open>Waypoint rebuild: idempotence\<close>












end
